theory Spec2Isabelle
  imports
    Main
    "HOL-Library.AList"
    "HOL-Library.Char_ord"
    "HOL-Library.List_Lexorder"
    "HOL-Library.Product_Lexorder"
    "HOL-Library.Multiset"
begin

section \<open>Python values, dictionaries and errors\<close>

text \<open>
  The harvester passes its request parameters around as a Python \<open>dict\<close>. A dict keeps
  its keys in insertion order, so it is modelled as an association list with distinct
  keys: \<open>map_of\<close> is the lookup and \<open>AList.update\<close> is \<open>d[k] = v\<close> (an existing
  key keeps its position, a new key goes to the end).
\<close>

datatype pyval = PNone | PStr string | PInt int

type_synonym pydict = "(string \<times> pyval) list"

datatype exc =
    AssertionError
  | ValueError
  | RuntimeError
  | AttributeError
  | ArrowInvalid
  | HTTPError nat
  | NetworkException string
  | JSONDecodeError
  | TypeError

text \<open>Truthiness of an \<open>Optional[str]\<close>: \<open>None\<close> and the empty string are false.\<close>

fun truthy :: "string option \<Rightarrow> bool" where
  "truthy None = False"
| "truthy (Some s) = (s \<noteq> [])"

section \<open>Request parameters: \<open>_build_params\<close>\<close>

text \<open>
  The date arguments are annotated \<open>Optional[str]\<close>; \<open>_as_str_or_none\<close> also unwraps a
  one-element tuple, so both shapes are kept.
\<close>

datatype datearg = Plain "string option" | Tuple1 "string option"

fun as_str_or_none :: "datearg \<Rightarrow> string option" where
  "as_str_or_none (Plain v) = v"
| "as_str_or_none (Tuple1 v) = v"

record build_args =
  resource_type_id :: "string option"
  date_field :: string
  date_start :: datearg
  date_end :: datearg
  client_id :: "string option"
  rows :: int
  cursor :: "string option"
  include_affiliation :: bool
  disable_facets :: bool
  query :: "string option"

definition set_if :: "bool \<Rightarrow> string \<Rightarrow> pyval \<Rightarrow> pydict \<Rightarrow> pydict" where
  "set_if c k v d = (if c then AList.update k v d else d)"

text \<open>\<open>today\<close> is the value of \<open>date.today().isoformat()\<close> at the time of the call.\<close>

definition build_params :: "string \<Rightarrow> build_args \<Rightarrow> exc + pydict" where
  "build_params today a =
     (if \<not> (1 \<le> rows a \<and> rows a \<le> 1000) then Inl AssertionError
      else
        let date_end' = (if date_end a = Plain None then Plain (Some today) else date_end a);
            params = [(''page[size]'', PInt (rows a)),
                      (''page[cursor]'', PStr (if truthy (cursor a) then the (cursor a) else ''1''))];
            params = set_if (truthy (resource_type_id a)) ''resource-type-id''
                       (PStr (the (resource_type_id a))) params;
            ds = as_str_or_none (date_start a);
            de = as_str_or_none date_end';
            params = set_if (truthy ds) (''from-'' @ date_field a @ ''-date'') (PStr (the ds)) params;
            params = set_if (truthy de) (''until-'' @ date_field a @ ''-date'') (PStr (the de)) params;
            params = set_if (truthy (client_id a)) ''client-id'' (PStr (the (client_id a))) params;
            params = set_if (include_affiliation a) ''affiliation'' (PStr ''true'') params;
            params = set_if (disable_facets a) ''disable-facets'' (PStr ''true'') params;
            params = set_if (truthy (query a)) ''query'' (PStr (the (query a))) params
        in Inr params)"

section \<open>Query signature: \<open>_sig_dict\<close> and \<open>_sig_hash\<close>\<close>

definition keep :: "string list" where
  "keep = [''resource-type-id'', ''query'',
           ''from-registered-date'', ''until-registered-date'',
           ''from-created-date'', ''until-created-date'',
           ''from-updated-date'', ''until-updated-date'',
           ''client-id'']"

definition sig_dict :: "pydict \<Rightarrow> pydict" where
  "sig_dict d =
     concat (map (\<lambda>k. case map_of d k of
                         None \<Rightarrow> []
                       | Some v \<Rightarrow> (if v \<noteq> PNone then [(k, v)] else [])) keep)"

text \<open>
  \<open>json.dumps(d, sort_keys=True)\<close> writes the items in the order of their keys. The
  encoder of one key or scalar value (\<open>json_scalar\<close>) and the SHA-1 hex digest of the
  UTF-8 payload (\<open>sha1_hex\<close>) are library functions, taken as parameters.
\<close>

record hashlib =
  json_scalar :: "pyval \<Rightarrow> string"
  sha1_hex :: "string \<Rightarrow> string"

fun join :: "string \<Rightarrow> string list \<Rightarrow> string" where
  "join sep [] = []"
| "join sep [x] = x"
| "join sep (x # y # zs) = x @ sep @ join sep (y # zs)"

definition json_dumps_sorted :: "hashlib \<Rightarrow> pydict \<Rightarrow> string" where
  "json_dumps_sorted lib d =
     ''{'' @ join '', '' (map (\<lambda>(k, v). json_scalar lib (PStr k) @ '': '' @ json_scalar lib v)
                              (sort_key fst d)) @ ''}''"

definition sig_hash :: "hashlib \<Rightarrow> pydict \<Rightarrow> string" where
  "sig_hash lib d = take 12 (sha1_hex lib (json_dumps_sorted lib d))"

section \<open>The retrying fetcher: \<open>_request_get\<close>\<close>

text \<open>
  One attempt is the body of the \<open>try\<close>: \<open>requests.get\<close> and, for a 200 answer,
  \<open>r.json()\<close>. It answers with status 200 and a parsed body, answers with another
  status, raises a \<open>requests.RequestException\<close> (\<open>Raises\<close>: a network failure, or a 200
  answer whose body does not parse where the library's decode error is a
  \<open>RequestException\<close>), or raises any other exception (\<open>RaisesOther\<close>: for instance a
  200 answer whose body does not parse where the decode error is a plain
  \<open>ValueError\<close>). The network is the function giving the outcome of the attempt with
  a given index.
\<close>

datatype 'j attempt = Status200 'j | StatusOther nat | Raises exc | RaisesOther exc

datatype 'j fetched = Returned 'j | ReturnedNone | Raised exc

definition transient_status :: "nat \<Rightarrow> bool" where
  "transient_status c = (c = 429 \<or> c = 500 \<or> c = 502 \<or> c = 503 \<or> c = 504)"

text \<open>
  \<open>request_loop net n attempt last_exc\<close> runs the remaining \<open>n\<close> iterations of
  \<open>for attempt in range(retries)\<close>. The second component lists the factors
  \<open>2 ** attempt\<close> of the sleeps, in order. \<open>raise_for_status\<close> raises an
  \<open>HTTPError\<close> for a status from 400 to 599, which the \<open>except\<close> clause of the same
  iteration catches; for any other status it returns and the loop goes on. The
  \<open>except\<close> clause catches \<open>RequestException\<close> only: any other exception leaves the
  function at once.
\<close>

fun request_loop ::
  "(nat \<Rightarrow> 'j attempt) \<Rightarrow> nat \<Rightarrow> nat \<Rightarrow> exc option \<Rightarrow> 'j fetched \<times> nat list" where
  "request_loop net 0 attempt last_exc =
     (case last_exc of Some e \<Rightarrow> (Raised e, []) | None \<Rightarrow> (ReturnedNone, []))"
| "request_loop net (Suc n) attempt last_exc =
     (case net attempt of
        Status200 js \<Rightarrow> (Returned js, [])
      | StatusOther c \<Rightarrow>
          if transient_status c then
            (let (r, sl) = request_loop net n (Suc attempt) last_exc in (r, 2 ^ attempt # sl))
          else if 400 \<le> c \<and> c < 600 then
            (let (r, sl) = request_loop net n (Suc attempt) (Some (HTTPError c))
             in (r, 2 ^ attempt # sl))
          else request_loop net n (Suc attempt) last_exc
      | Raises e \<Rightarrow>
          (let (r, sl) = request_loop net n (Suc attempt) (Some e) in (r, 2 ^ attempt # sl))
      | RaisesOther e \<Rightarrow> (Raised e, []))"

definition request_get :: "(nat \<Rightarrow> 'j attempt) \<Rightarrow> nat \<Rightarrow> 'j fetched \<times> nat list" where
  "request_get net retries = request_loop net retries 0 None"

section \<open>Example inputs for the parameter builder and the signature\<close>

definition example_args :: build_args where
  "example_args = \<lparr> resource_type_id = Some ''Preprint'', date_field = ''registered'',
     date_start = Plain (Some ''2020-01-01''), date_end = Plain None, client_id = None,
     rows = 1000, cursor = None, include_affiliation = False, disable_facets = True,
     query = None \<rparr>"

definition example_params :: pydict where
  "example_params =
     [(''page[size]'', PInt 1000), (''page[cursor]'', PStr ''1''),
      (''resource-type-id'', PStr ''Preprint''),
      (''from-registered-date'', PStr ''2020-01-01''),
      (''until-registered-date'', PStr ''2026-11-04''),
      (''disable-facets'', PStr ''true'')]"

definition toy_hashlib :: hashlib where
  "toy_hashlib = \<lparr> json_scalar = (\<lambda>v. case v of PStr s \<Rightarrow> s | _ \<Rightarrow> ''null''),
                   sha1_hex = (\<lambda>s. s) \<rparr>"

definition params_a :: pydict where
  "params_a = [(''page[size]'', PInt 1000), (''page[cursor]'', PStr ''1''),
               (''resource-type-id'', PStr ''Preprint''),
               (''from-registered-date'', PStr ''2020-01-01'')]"

definition params_b :: pydict where
  "params_b = [(''from-registered-date'', PStr ''2020-01-01''),
               (''page[cursor]'', PStr ''MTYx''),
               (''resource-type-id'', PStr ''Preprint''),
               (''page[size]'', PInt 50)]"

section \<open>Checkpoints and the resumable stream: \<open>stream_datacite_with_resume\<close>\<close>

text \<open>
  A checkpoint file holds the signature dict and the cursor of the next page. The
  \<open>saved_at\<close> timestamp is written too, but the program never reads it back, so it is
  left out. \<open>_load_checkpoint\<close> gives \<open>None\<close> for a missing or unreadable file.
  Two dicts are equal in Python when they hold the same items, in any order.
\<close>

record checkpoint =
  signature :: pydict
  next_cursor :: "string option"

definition dict_eq :: "pydict \<Rightarrow> pydict \<Rightarrow> bool" where
  "dict_eq a b = (set a = set b)"

definition setdefault :: "string \<Rightarrow> pyval \<Rightarrow> pydict \<Rightarrow> pydict" where
  "setdefault k v d = (if k \<in> set (map fst d) then d else d @ [(k, v)])"

text \<open>
  The resume decision at the head of the stream: the parameters of the first request.
\<close>

definition resumes :: "pydict \<Rightarrow> checkpoint option \<Rightarrow> bool" where
  "resumes base_params ckpt =
     (case ckpt of
        None \<Rightarrow> False
      | Some c \<Rightarrow> dict_eq (signature c) (sig_dict base_params) \<and> truthy (next_cursor c))"

definition start_params :: "pydict \<Rightarrow> checkpoint option \<Rightarrow> pydict" where
  "start_params base_params ckpt =
     (if resumes base_params ckpt
      then AList.update ''page[cursor]'' (PStr (the (next_cursor (the ckpt)))) base_params
      else setdefault ''page[cursor]'' (PStr ''1'') base_params)"

text \<open>
  A parsed response body: the items under \<open>data\<close> (an absent or null entry reads as the
  empty list) and the URL under \<open>links.next\<close>, if any. \<open>parse_qs\<close> stands for the
  library call that extracts the \<open>page[cursor]\<close> query value of that URL.
\<close>

record 'i page =
  data :: "'i list"
  links_next :: "string option"

definition parse_next_cursor :: "(string \<Rightarrow> string option) \<Rightarrow> string option \<Rightarrow> string option" where
  "parse_next_cursor parse_qs nxt = (if truthy nxt then parse_qs (the nxt) else None)"

text \<open>
  The stream is a generator. Its run is the sequence of what it does, in order: it
  requests a page, yields the items one by one (the consumer runs between two
  yields), and saves a checkpoint. The responses are the results of the successive
  calls of \<open>_request_get\<close>; when the list is used up the stream is still waiting for
  a response (\<open>Pending\<close>). A \<open>None\<close> result makes \<open>js.get\<close> raise \<open>AttributeError\<close>.
\<close>

datatype 'i event = Request pyval | Yield 'i | Save checkpoint

datatype ending = Done | Failed exc | Pending

fun later_pages ::
  "(string \<Rightarrow> string option) \<Rightarrow> pydict \<Rightarrow> string option \<Rightarrow> 'i page fetched list
     \<Rightarrow> 'i event list \<times> ending" where
  "later_pages parse_qs sig nc [] =
     (if truthy nc then ([Request (PStr (the nc))], Pending) else ([], Done))"
| "later_pages parse_qs sig nc (r # rs) =
     (if truthy nc then
        (case r of
           Raised e \<Rightarrow> ([Request (PStr (the nc))], Failed e)
         | ReturnedNone \<Rightarrow> ([Request (PStr (the nc))], Failed AttributeError)
         | Returned js \<Rightarrow>
             if data js = [] then ([Request (PStr (the nc))], Done)
             else
               let nc' = parse_next_cursor parse_qs (links_next js);
                   (evs, fin) = later_pages parse_qs sig nc' rs
               in (Request (PStr (the nc)) # map Yield (data js)
                     @ [Save \<lparr>signature = sig, next_cursor = nc'\<rparr>] @ evs, fin))
      else ([], Done))"

definition first_cursor :: "pydict \<Rightarrow> pyval" where
  "first_cursor params = (case map_of params ''page[cursor]'' of Some v \<Rightarrow> v | None \<Rightarrow> PNone)"

definition stream_datacite_with_resume ::
  "(string \<Rightarrow> string option) \<Rightarrow> pydict \<Rightarrow> checkpoint option \<Rightarrow> 'i page fetched list
     \<Rightarrow> 'i event list \<times> ending" where
  "stream_datacite_with_resume parse_qs base_params ckpt rs =
     (let sig = sig_dict base_params;
          params = start_params base_params ckpt;
          req = Request (first_cursor params)
      in case rs of
           [] \<Rightarrow> ([req], Pending)
         | r # rs' \<Rightarrow>
             (case r of
                Raised e \<Rightarrow> ([req], Failed e)
              | ReturnedNone \<Rightarrow> ([req], Failed AttributeError)
              | Returned js \<Rightarrow>
                  let nc = parse_next_cursor parse_qs (links_next js);
                      (evs, fin) = later_pages parse_qs sig nc rs'
                  in (req # map Yield (data js)
                        @ [Save \<lparr>signature = sig, next_cursor = nc\<rparr>] @ evs, fin)))"


definition requests :: "'i event list \<Rightarrow> pyval list" where
  "requests evs = concat (map (\<lambda>e. case e of Request c \<Rightarrow> [c] | _ \<Rightarrow> []) evs)"



section \<open>One pass of the orchestrator: buffering and incremental flush\<close>

text \<open>
  The state of \<open>harvest_datacite_preprints_dataframe\<close> during a pass. The chunk files
  are named by \<open>chunk_idx_global\<close>, so the shard directory is a map from the index to
  the rows of that file. Three fields are bookkeeping for the statements below and
  have no counterpart in the program: \<open>yielded\<close> (all items handed to the consumer so far),
  \<open>page_items\<close> (the items of the page fetched last) and \<open>unrefetchable\<close> (the items a
  run resumed from the checkpoint on disk would not request again: those yielded
  before a checkpoint with a usable cursor was written; a checkpoint without a cursor
  makes the next run start from the beginning).
\<close>

record ('i, 'r) hstate =
  ckpt_file :: "checkpoint option"
  shard_files :: "nat \<Rightarrow> 'r list option"
  chunk_idx_global :: nat
  ndjson :: "'r list"
  buffer_rows :: "'r list"
  all_rows :: "'r list"
  yielded :: "'i list"
  page_items :: "'i list"
  unrefetchable :: "'i list"

record ('i, 'r) config =
  one_row_wide :: "'i \<Rightarrow> 'r option"
  incremental_every :: int
  incremental_save_dir :: "string option"
  ndj_fh :: bool
  ckpt_writable :: bool

definition rows_of :: "('i, 'r) config \<Rightarrow> 'i list \<Rightarrow> 'r list" where
  "rows_of cfg items = List.map_filter (one_row_wide cfg) items"

text \<open>The effects of one flush, one state per effect: chunk write, NDJSON write.\<close>

definition write_chunk :: "('i, 'r) config \<Rightarrow> ('i, 'r) hstate \<Rightarrow> ('i, 'r) hstate" where
  "write_chunk cfg s =
     (if truthy (incremental_save_dir cfg)
      then s\<lparr>shard_files := (shard_files s)(chunk_idx_global s \<mapsto> buffer_rows s),
              chunk_idx_global := chunk_idx_global s + 1\<rparr>
      else s)"

definition write_ndjson :: "('i, 'r) config \<Rightarrow> ('i, 'r) hstate \<Rightarrow> ('i, 'r) hstate" where
  "write_ndjson cfg s = (if ndj_fh cfg then s\<lparr>ndjson := ndjson s @ buffer_rows s\<rparr> else s)"

text \<open>
  The body of \<open>for item in streamer\<close> for one item, as the list of the states it
  passes through: after the append, and, when the buffer has reached the threshold,
  after the chunk write, after the NDJSON write and after \<open>buffer_rows.clear()\<close>.
\<close>

definition item_states :: "('i, 'r) config \<Rightarrow> 'i \<Rightarrow> ('i, 'r) hstate \<Rightarrow> ('i, 'r) hstate list" where
  "item_states cfg it s =
     (let s1 = s\<lparr>yielded := yielded s @ [it], page_items := page_items s @ [it]\<rparr>;
          s1 = (case one_row_wide cfg it of
                  None \<Rightarrow> s1
                | Some row \<Rightarrow> s1\<lparr>buffer_rows := buffer_rows s1 @ [row]\<rparr>)
      in if int (length (buffer_rows s1)) \<ge> incremental_every cfg
         then (let s2 = write_chunk cfg s1; s3 = write_ndjson cfg s2
               in [s1, s2, s3, s3\<lparr>buffer_rows := []\<rparr>])
         else [s1])"

fun event_states :: "('i, 'r) config \<Rightarrow> 'i event \<Rightarrow> ('i, 'r) hstate \<Rightarrow> ('i, 'r) hstate list" where
  "event_states cfg (Request c) s = [s\<lparr>page_items := []\<rparr>]"
| "event_states cfg (Yield it) s = item_states cfg it s"
| "event_states cfg (Save c) s =
     [if ckpt_writable cfg
      then s\<lparr>ckpt_file := Some c,
              unrefetchable := (if truthy (next_cursor c) then yielded s else [])\<rparr>
      else s]"

fun run_events :: "('i, 'r) config \<Rightarrow> 'i event list \<Rightarrow> ('i, 'r) hstate \<Rightarrow> ('i, 'r) hstate list" where
  "run_events cfg [] s = []"
| "run_events cfg (e # es) s =
     (let sts = event_states cfg e s in sts @ run_events cfg es (last sts))"

text \<open>The flush of the remainder when the stream is exhausted.\<close>

definition final_flush :: "('i, 'r) config \<Rightarrow> ('i, 'r) hstate \<Rightarrow> ('i, 'r) hstate list" where
  "final_flush cfg s =
     (if buffer_rows s \<noteq> []
      then (let s2 = write_chunk cfg s; s3 = write_ndjson cfg s2
            in [s2, s3, s3\<lparr>all_rows := all_rows s3 @ buffer_rows s3\<rparr>])
      else [])"

text \<open>
  A pass starts with a fresh, empty buffer. \<open>pass_states\<close> lists every state the pass
  goes through; an interruption leaves the process in one of them (or in the start
  state). When the stream raises, the exception leaves the function and the pass
  stops where it is; only a stream that ends normally is followed by the final flush.
\<close>

definition pass_start :: "('i, 'r) hstate \<Rightarrow> ('i, 'r) hstate" where
  "pass_start s = s\<lparr>buffer_rows := [], yielded := [], page_items := [], unrefetchable := []\<rparr>"

definition pass_states ::
  "('i, 'r) config \<Rightarrow> 'i event list \<times> ending \<Rightarrow> ('i, 'r) hstate \<Rightarrow> ('i, 'r) hstate list" where
  "pass_states cfg run s =
     (let s0 = pass_start s;
          sts = s0 # run_events cfg (fst run) s0
      in if snd run = Done then sts @ final_flush cfg (last sts) else sts)"

text \<open>
  The rows in the chunk files written so far by this invocation, and the rows of
  unrefetchable items that are in none of them.
\<close>

definition durable :: "('i, 'r) hstate \<Rightarrow> 'r list" where
  "durable s = concat (map (\<lambda>i. case shard_files s i of Some rs \<Rightarrow> rs | None \<Rightarrow> [])
                           [0 ..< chunk_idx_global s])"

definition lost :: "('i, 'r) config \<Rightarrow> ('i, 'r) hstate \<Rightarrow> 'r list" where
  "lost cfg s = filter (\<lambda>r. r \<notin> set (durable s)) (rows_of cfg (unrefetchable s))"

text \<open>
  The invariant of a pass: the row of every item yielded so far is in a chunk file or
  in the buffer, and every unrefetchable item has been yielded.
\<close>

definition covered :: "('i, 'r) config \<Rightarrow> ('i, 'r) hstate \<Rightarrow> bool" where
  "covered cfg s =
     (set (rows_of cfg (yielded s)) \<subseteq> set (durable s) \<union> set (buffer_rows s)
      \<and> set (unrefetchable s) \<subseteq> set (yielded s))"

section \<open>Example runs of the stream\<close>

definition empty_state :: "(string, string) hstate" where
  "empty_state = \<lparr> ckpt_file = None, shard_files = (\<lambda>_. None), chunk_idx_global = 0,
     ndjson = [], buffer_rows = [], all_rows = [], yielded = [], page_items = [],
     unrefetchable = [] \<rparr>"

definition example_config :: "(string, string) config" where
  "example_config = \<lparr> one_row_wide = Some, incremental_every = 10,
     incremental_save_dir = Some ''./datacite_preprints_batches'', ndj_fh = False,
     ckpt_writable = True \<rparr>"

text \<open>In the examples a link is written as the bare cursor it carries.\<close>

definition three_pages :: "string page fetched list" where
  "three_pages = [Returned \<lparr>data = [''a''], links_next = Some ''c2''\<rparr>,
                  Returned \<lparr>data = [''b''], links_next = Some ''c3''\<rparr>,
                  Returned \<lparr>data = [''c''], links_next = None\<rparr>]"


text \<open>
  The state of the three-page run right after its second checkpoint was written: an
  interruption there finds both pages behind the saved cursor and in no chunk file.
\<close>

definition crash_state :: "(string, string) hstate" where
  "crash_state =
     pass_states example_config (stream_datacite_with_resume Some params_a None three_pages)
       empty_state ! 6"

section \<open>Shard discovery: \<open>discover_parquet_files\<close>\<close>

text \<open>
  The file system as the function reads it: \<open>norm\<close> is \<open>_norm\<close>
  (\<open>normpath\<close> of \<open>expanduser\<close>), \<open>subdirs p\<close> lists \<open>os.path.join(p, d)\<close> for the
  directories \<open>d\<close> in \<open>os.listdir(p)\<close>, and \<open>iglob folder\<close> lists the paths that the
  recursive glob \<open>folder/**/*.parquet\<close> gives, in its order.
\<close>

record filesystem =
  norm :: "string \<Rightarrow> string"
  path_exists :: "string \<Rightarrow> bool"
  subdirs :: "string \<Rightarrow> string list"
  iglob :: "string \<Rightarrow> string list"
  basename :: "string \<Rightarrow> string"

record shard_record =
  folder :: string
  filepath :: string
  filename :: string

text \<open>\<open>contains sub s\<close> is Python's \<open>sub in s\<close> on strings.\<close>

fun contains :: "string \<Rightarrow> string \<Rightarrow> bool" where
  "contains sub [] = (sub = [])"
| "contains sub (c # cs) = (take (length sub) (c # cs) = sub \<or> contains sub cs)"

text \<open>
  The inner loop over the paths of one folder, and the loop over the folders of one
  parent. Both thread the \<open>seen\<close> set and the list of records.
\<close>

fun scan_folder ::
  "filesystem \<Rightarrow> string \<Rightarrow> string \<Rightarrow> string list \<Rightarrow> string set \<times> shard_record list
     \<Rightarrow> string set \<times> shard_record list" where
  "scan_folder fs name_contains fld [] (seen, records) = (seen, records)"
| "scan_folder fs name_contains fld (f # fps) (seen, records) =
     (let fpath = norm fs f in
      if fpath \<in> seen then scan_folder fs name_contains fld fps (seen, records)
      else
        let seen' = insert fpath seen; fname = basename fs fpath in
        if name_contains \<noteq> [] \<and> \<not> contains name_contains fname
        then scan_folder fs name_contains fld fps (seen', records)
        else scan_folder fs name_contains fld fps
               (seen', records @ [\<lparr>folder = fld, filepath = fpath, filename = fname\<rparr>]))"

fun scan_folders ::
  "filesystem \<Rightarrow> string \<Rightarrow> string list \<Rightarrow> string set \<times> shard_record list
     \<Rightarrow> string set \<times> shard_record list" where
  "scan_folders fs name_contains [] acc = acc"
| "scan_folders fs name_contains (fld # flds) acc =
     scan_folders fs name_contains flds (scan_folder fs name_contains fld (iglob fs fld) acc)"

text \<open>
  The outer loop over the parents, with the records collected so far. The \<open>seen\<close> set
  is created anew for every parent that exists.
\<close>

fun discover_loop ::
  "filesystem \<Rightarrow> string \<Rightarrow> bool \<Rightarrow> string list \<Rightarrow> shard_record list \<Rightarrow> shard_record list" where
  "discover_loop fs name_contains one_level_deep [] records = records"
| "discover_loop fs name_contains one_level_deep (parent # parents) records =
     (let parent' = norm fs parent in
      if \<not> path_exists fs parent'
      then discover_loop fs name_contains one_level_deep parents records
      else
        let folders = parent' # (if one_level_deep then subdirs fs parent' else []);
            (seen, records') = scan_folders fs name_contains folders ({}, records)
        in discover_loop fs name_contains one_level_deep parents records')"

definition discover_parquet_files ::
  "filesystem \<Rightarrow> string list \<Rightarrow> string \<Rightarrow> bool \<Rightarrow> shard_record list" where
  "discover_parquet_files fs parents name_contains one_level_deep =
     discover_loop fs name_contains one_level_deep parents []"

text \<open>
  The folders searched for one parent, and the invariant of the scan: every record's
  path is in the \<open>seen\<close> set and no two records carry the same path.
\<close>

definition folders_of :: "filesystem \<Rightarrow> bool \<Rightarrow> string \<Rightarrow> string list" where
  "folders_of fs old p = norm fs p # (if old then subdirs fs (norm fs p) else [])"

definition tidy :: "string set \<times> shard_record list \<Rightarrow> bool" where
  "tidy acc = (filepath ` set (snd acc) \<subseteq> fst acc \<and> distinct (map filepath (snd acc)))"

section \<open>Schema unification: \<open>_collect_unified_schema\<close>\<close>

text \<open>
  An Arrow schema is the list of its fields, a field a name with a type. Field
  metadata and nullability flags play no part in what follows and are left out.
\<close>

datatype ftype = TNull | TBool | TInt64 | TFloat64 | TString | TOther string

type_synonym field = "string \<times> ftype"
type_synonym schema = "field list"

definition score_to_float64 :: "schema \<Rightarrow> schema" where
  "score_to_float64 sch =
     (if ''score'' \<in> set (map fst sch) \<and> map_of sch ''score'' \<noteq> Some TFloat64
      then map (\<lambda>(n, t). if n = ''score'' then (''score'', TFloat64) else (n, t)) sch
      else sch)"

text \<open>
  \<open>pyarrow.unify_schemas\<close> is a library function. It is modelled after its documented
  contract: fields are merged by name; the fields of the result come in the order of
  their first appearance, those of the first schema first; two fields of one name
  must have the same type, except that the null type gives way to any other type;
  otherwise the call raises.
\<close>

definition merge_type :: "ftype \<Rightarrow> ftype \<Rightarrow> ftype option" where
  "merge_type a b =
     (if a = b then Some a else if a = TNull then Some b else if b = TNull then Some a else None)"

fun add_field :: "field \<Rightarrow> schema \<Rightarrow> exc + schema" where
  "add_field (n, t) [] = Inr [(n, t)]"
| "add_field (n, t) ((m, u) # fs) =
     (if n = m then (case merge_type u t of None \<Rightarrow> Inl ArrowInvalid | Some v \<Rightarrow> Inr ((m, v) # fs))
      else (case add_field (n, t) fs of Inl e \<Rightarrow> Inl e | Inr fs' \<Rightarrow> Inr ((m, u) # fs')))"

fun add_fields :: "field list \<Rightarrow> schema \<Rightarrow> exc + schema" where
  "add_fields [] acc = Inr acc"
| "add_fields (f # fs) acc =
     (case add_field f acc of Inl e \<Rightarrow> Inl e | Inr acc' \<Rightarrow> add_fields fs acc')"

definition unify_schemas :: "schema list \<Rightarrow> exc + schema" where
  "unify_schemas schemas = add_fields (concat schemas) []"

text \<open>
  \<open>schema_arrow p\<close> is the schema read from the footer of the file \<open>p\<close>, or \<open>None\<close>
  when reading it raises; such a shard is skipped with a warning.
\<close>

definition collect_unified_schema :: "(string \<Rightarrow> schema option) \<Rightarrow> string list \<Rightarrow> exc + schema" where
  "collect_unified_schema schema_arrow paths =
     (let schemas = List.map_filter (\<lambda>p. map_option score_to_float64 (schema_arrow p)) paths
      in if schemas \<noteq> [] then unify_schemas schemas else Inr [])"

text \<open>
  The unification read on finite maps from names to types: one step adds one field.
  This view forgets the order of the columns; it is what the proofs about
  reordering the shards work with.
\<close>

definition add_field_map :: "field \<Rightarrow> (string \<rightharpoonup> ftype) option \<Rightarrow> (string \<rightharpoonup> ftype) option" where
  "add_field_map f M =
     (case M of
        None \<Rightarrow> None
      | Some m \<Rightarrow>
          (case m (fst f) of
             None \<Rightarrow> Some (m(fst f \<mapsto> snd f))
           | Some u \<Rightarrow> (case merge_type u (snd f) of
                          None \<Rightarrow> None
                        | Some v \<Rightarrow> Some (m(fst f \<mapsto> v)))))"

text \<open>
  A result of the unification agrees with a result on maps when both failed, or when
  the schema has distinct names and is the list form of the map.
\<close>

fun agrees :: "exc + schema \<Rightarrow> (string \<rightharpoonup> ftype) option \<Rightarrow> bool" where
  "agrees (Inl e) M = (M = None)"
| "agrees (Inr r) M = (M = Some (map_of r) \<and> distinct (map fst r))"

text \<open>Two results of the unification agree up to the order of the columns.\<close>

fun same_columns :: "exc + schema \<Rightarrow> exc + schema \<Rightarrow> bool" where
  "same_columns (Inr a) (Inr b) = (set a = set b \<and> length a = length b)"
| "same_columns (Inl e) (Inl e') = True"
| "same_columns _ _ = False"

section \<open>Alignment and the merge: \<open>_align_table_to_schema\<close>, \<open>merge_parquets\<close>\<close>

record column =
  col_name :: string
  col_type :: ftype
  col_cells :: "pyval list"

record table =
  t_cols :: "column list"
  num_rows :: nat

text \<open>
  The Arrow calls of the alignment that can succeed or raise (\<open>None\<close>):
  \<open>cast col t\<close> is \<open>pa.compute.cast(col, t)\<close> and \<open>mk_table cols schema\<close> is
  \<open>pa.table(cols, schema=schema)\<close>. For a column of the schema that the table lacks
  the code calls \<open>pa.nulls(length=..., type=...)\<close>; the parameter of \<open>pa.nulls\<close> is
  named \<open>size\<close>, so this call raises \<open>TypeError\<close> whatever the table: the alignment of
  a table that lacks a column of the schema raises.
\<close>

record arrow_lib =
  cast :: "column \<Rightarrow> ftype \<Rightarrow> column option"
  mk_table :: "column list \<Rightarrow> schema \<Rightarrow> table option"

fun align_cols :: "arrow_lib \<Rightarrow> table \<Rightarrow> schema \<Rightarrow> column list option" where
  "align_cols lib tbl [] = Some []"
| "align_cols lib tbl ((n, t) # fs) =
     (case find (\<lambda>c. col_name c = n) (t_cols tbl) of
        Some col \<Rightarrow>
          (let col' = (if col_type col \<noteq> t
                       then (case cast lib col t of Some c \<Rightarrow> c | None \<Rightarrow> col)
                       else col)
           in map_option (Cons col') (align_cols lib tbl fs))
      | None \<Rightarrow> None)"

definition align_table_to_schema :: "arrow_lib \<Rightarrow> table \<Rightarrow> schema \<Rightarrow> table option" where
  "align_table_to_schema lib tbl sch =
     (case align_cols lib tbl sch of None \<Rightarrow> None | Some cols \<Rightarrow> mk_table lib cols sch)"

text \<open>
  What \<open>merge_parquets\<close> meets outside itself: the file system, the shard files
  (\<open>schema_arrow\<close>, \<open>read_table\<close>; \<open>None\<close> when the read raises), the Arrow calls,
  whether the \<open>ParquetWriter\<close> can be opened, whether \<open>write_table\<close> succeeds for the
  table of a given shard, whether the temporary file exists after the writer is
  closed, whether \<open>os.replace\<close> succeeds, and the timestamp of the run.
\<close>

record merge_env =
  fsys :: filesystem
  schema_arrow :: "string \<Rightarrow> schema option"
  read_table :: "string \<Rightarrow> table option"
  arrow :: arrow_lib
  writer_open_ok :: bool
  write_ok :: "string \<Rightarrow> bool"
  tmp_exists :: bool
  replace_ok :: bool
  timestamp :: string

record merge_args =
  input_parent_dirs :: "string list"
  output_dir :: string
  merged_basename :: string
  name_contains :: string
  one_level_deep :: bool
  write_pkl_too :: bool

record merge_report =
  parquet :: "string option"
  pkl :: "string option"
  report_output_dir :: string
  rows_written :: nat
  inputs :: "string list"

text \<open>
  The body of the \<open>try\<close> for one shard: the aligned table when reading, aligning and
  (with an open writer) writing all succeed, \<open>None\<close> when the shard is skipped.
\<close>

definition aligned :: "merge_env \<Rightarrow> schema \<Rightarrow> string \<Rightarrow> table option" where
  "aligned env sch p =
     (case read_table env p of
        None \<Rightarrow> None
      | Some tbl \<Rightarrow> align_table_to_schema (arrow env) tbl sch)"

definition merged_shard :: "merge_env \<Rightarrow> schema \<Rightarrow> string \<Rightarrow> table option" where
  "merged_shard env sch p =
     (case aligned env sch p of
        None \<Rightarrow> None
      | Some t \<Rightarrow> if writer_open_ok env \<and> \<not> write_ok env p then None else Some t)"

text \<open>
  The loop over the shards, with the row counter and the tables written so far.
\<close>

fun merge_loop ::
  "merge_env \<Rightarrow> schema \<Rightarrow> string list \<Rightarrow> nat \<times> table list \<Rightarrow> nat \<times> table list" where
  "merge_loop env sch [] acc = acc"
| "merge_loop env sch (p # ps) (total_rows_written, written) =
     (case merged_shard env sch p of
        None \<Rightarrow> merge_loop env sch ps (total_rows_written, written)
      | Some t \<Rightarrow>
          merge_loop env sch ps
            (total_rows_written + num_rows t,
             if writer_open_ok env then written @ [t] else written))"

text \<open>
  The result is the report and the contents of the output file, as the list of the
  tables written to it: \<open>None\<close> when no output file was put in place.
\<close>

definition merge_parquets :: "merge_env \<Rightarrow> merge_args \<Rightarrow> exc + merge_report \<times> table list option" where
  "merge_parquets env a =
     (let out_dir = norm (fsys env) (output_dir a);
          recs = discover_parquet_files (fsys env) (input_parent_dirs a) (name_contains a)
                   (one_level_deep a)
      in if recs = [] then Inl RuntimeError
         else
           let all_paths = map filepath recs in
           case collect_unified_schema (schema_arrow env) all_paths of
             Inl e \<Rightarrow> Inl e
           | Inr unified_schema \<Rightarrow>
               if length unified_schema = 0 then Inl RuntimeError
               else
                 let out_parquet = norm (fsys env)
                       (out_dir @ ''/'' @ merged_basename a @ ''_'' @ timestamp env @ ''.parquet'');
                     out_pkl = norm (fsys env)
                       (out_dir @ ''/'' @ merged_basename a @ ''_'' @ timestamp env @ ''.pkl'');
                     parquet_ok = writer_open_ok env;
                     (total_rows_written, written) = merge_loop env unified_schema all_paths (0, []);
                     finalized = (parquet_ok \<and> tmp_exists env \<and> replace_ok env);
                     parquet_ok = (if parquet_ok \<and> tmp_exists env then replace_ok env
                                   else parquet_ok)
                 in Inr (\<lparr> parquet = (if parquet_ok then Some out_parquet else None),
                            pkl = (if write_pkl_too a \<and> parquet_ok then Some out_pkl else None),
                            report_output_dir = out_dir,
                            rows_written = total_rows_written,
                            inputs = all_paths \<rparr>,
                         if finalized then Some written else None))"


section \<open>Deduplication in \<open>harvest_datacite_preprints_dataframe\<close>\<close>

text \<open>
  The columns of a row that the deduplication reads; \<open>rest\<close> carries the others.
  \<open>rich\<close> is the \<open>_rich\<close> column. \<open>sort_values\<close> on several keys is a stable sort;
  descending richness is ascending \<open>2 - rich\<close>, and \<open>na_position="last"\<close> puts a
  missing date after every date. \<open>drop_duplicates(subset=["doi"], keep="first")\<close>
  keeps the first row of every \<open>doi\<close> value, a missing \<open>doi\<close> counting as one value.
\<close>

record row =
  doi :: "string option"
  provider_id :: "string option"
  alternate_ids_json :: "string option"
  registered :: "string option"
  updated :: "string option"
  created :: "string option"
  rest :: pydict


fun na_last :: "string option \<Rightarrow> nat \<times> string" where
  "na_last (Some s) = (0, s)"
| "na_last None = (1, [])"






section \<open>Example shards\<close>

definition plain_arrow :: arrow_lib where
  "plain_arrow = \<lparr>
     cast = (\<lambda>c t. None),
     mk_table = (\<lambda>cols sch.
        if map (\<lambda>c. (col_name c, col_type c)) cols = sch
        then Some \<lparr>t_cols = cols,
                   num_rows = (case cols of [] \<Rightarrow> 0 | c # _ \<Rightarrow> length (col_cells c))\<rparr>
        else None) \<rparr>"

text \<open>Two shards with different columns, for the order of the unified schema.\<close>

definition two_shards :: "string \<Rightarrow> schema option" where
  "two_shards p = (if p = ''A'' then Some [(''doi'', TString), (''score'', TInt64)]
                   else if p = ''B'' then Some [(''title'', TString), (''doi'', TString)]
                   else None)"

definition shard_schema :: schema where
  "shard_schema = [(''id'', TString), (''registered'', TString), (''optional'', TString)]"

definition shard_table :: "pyval \<Rightarrow> table" where
  "shard_table opt = \<lparr> t_cols = [\<lparr>col_name = ''id'', col_type = TString, col_cells = [PStr ''x'']\<rparr>,
        \<lparr>col_name = ''registered'', col_type = TString, col_cells = [PStr ''2020-01-01'']\<rparr>,
        \<lparr>col_name = ''optional'', col_type = TString, col_cells = [opt]\<rparr>],
      num_rows = 1 \<rparr>"

text \<open>
  A directory \<open>data\<close> with the shards \<open>data/run1/s1.parquet\<close> and
  \<open>data/run2/s2.parquet\<close>, and a third file that cannot be read.
\<close>

definition example_fs :: filesystem where
  "example_fs = \<lparr> norm = (\<lambda>p. p),
     path_exists = (\<lambda>p. p \<in> {''data'', ''data/run1'', ''data/run2'', ''out''}),
     subdirs = (\<lambda>p. if p = ''data'' then [''data/run1'', ''data/run2''] else []),
     iglob = (\<lambda>p. if p = ''data'' then [''data/run1/s1.parquet'', ''data/run2/s2.parquet'',
                                         ''data/run2/bad.parquet'']
                    else if p = ''data/run1'' then [''data/run1/s1.parquet'']
                    else if p = ''data/run2'' then [''data/run2/s2.parquet'', ''data/run2/bad.parquet'']
                    else []),
     basename = (\<lambda>p. if p = ''data/run1/s1.parquet'' then ''s1.parquet''
                       else if p = ''data/run2/s2.parquet'' then ''s2.parquet''
                       else if p = ''data/run2/bad.parquet'' then ''bad.parquet'' else p) \<rparr>"

definition example_env :: merge_env where
  "example_env = \<lparr> fsys = example_fs,
     schema_arrow = (\<lambda>p. if p = ''data/run1/s1.parquet'' \<or> p = ''data/run2/s2.parquet''
                          then Some shard_schema else None),
     read_table = (\<lambda>p. if p = ''data/run1/s1.parquet'' then Some (shard_table PNone)
                        else if p = ''data/run2/s2.parquet'' then Some (shard_table (PStr ''v''))
                        else None),
     arrow = plain_arrow,
     writer_open_ok = True, write_ok = (\<lambda>p. True), tmp_exists = True, replace_ok = True,
     timestamp = ''20261104_120000'' \<rparr>"

definition example_merge_args :: merge_args where
  "example_merge_args = \<lparr> input_parent_dirs = [''data''], output_dir = ''out'',
     merged_basename = ''datacite_preprints_merged'', name_contains = [],
     one_level_deep = True, write_pkl_too = False \<rparr>"




text \<open>
  The example environment with a writer that fails on the second shard and a rename
  that fails.
\<close>

definition failing_env :: merge_env where
  "failing_env = example_env\<lparr> write_ok := (\<lambda>p. p \<noteq> ''data/run2/s2.parquet''),
                              replace_ok := False \<rparr>"

section \<open>Properties of the parameter builder, the signature and the fetcher\<close>

lemma map_of_set_if:
  "map_of (set_if c k v d) k' = (if c \<and> k' = k then Some v else map_of d k')"
  by (simp add: set_if_def update_conv')

text \<open>
  C9. \<open>_build_params\<close> fails its assertion exactly when \<open>rows\<close> is outside 1..1000.
  Otherwise it returns a dict in which \<open>page[size]\<close> is \<open>rows\<close> and \<open>page[cursor]\<close> is
  a string: the cursor argument, or \<open>"1"\<close> when that is \<open>None\<close> (or empty). A
  \<open>date_end\<close> of \<open>None\<close> is replaced by today's date: the call gives what it gives
  with today's date passed as \<open>date_end\<close>.
\<close>

theorem C9_build_params:
  "(build_params today a = Inl AssertionError \<longleftrightarrow> \<not> (1 \<le> rows a \<and> rows a \<le> 1000))
   \<and> (1 \<le> rows a \<and> rows a \<le> 1000 \<longrightarrow>
        (\<exists>p. build_params today a = Inr p
           \<and> map_of p ''page[size]'' = Some (PInt (rows a))
           \<and> map_of p ''page[cursor]'' =
               Some (PStr (case cursor a of None \<Rightarrow> ''1'' | Some c \<Rightarrow> if c = [] then ''1'' else c))))
   \<and> (date_end a = Plain None \<longrightarrow>
        build_params today a = build_params today (a\<lparr>date_end := Plain (Some today)\<rparr>))
   \<and> (date_end a = Plain None \<and> today \<noteq> [] \<and> 1 \<le> rows a \<and> rows a \<le> 1000 \<longrightarrow>
        (\<exists>p. build_params today a = Inr p
           \<and> map_of p (''until-'' @ date_field a @ ''-date'') = Some (PStr today)))"
proof -
  have size_cursor: "\<exists>p. build_params today a = Inr p
           \<and> map_of p ''page[size]'' = Some (PInt (rows a))
           \<and> map_of p ''page[cursor]'' =
               Some (PStr (case cursor a of None \<Rightarrow> ''1'' | Some c \<Rightarrow> if c = [] then ''1'' else c))"
    if "1 \<le> rows a \<and> rows a \<le> 1000"
    using that by (cases "cursor a") (simp_all add: build_params_def Let_def map_of_set_if)
  have until: "\<exists>p. build_params today a = Inr p
           \<and> map_of p (''until-'' @ date_field a @ ''-date'') = Some (PStr today)"
    if "date_end a = Plain None \<and> today \<noteq> [] \<and> 1 \<le> rows a \<and> rows a \<le> 1000"
    using that by (simp add: build_params_def Let_def map_of_set_if)
  have subst: "build_params today a = build_params today (a\<lparr>date_end := Plain (Some today)\<rparr>)"
    if "date_end a = Plain None"
    using that by (simp add: build_params_def Let_def)
  have asrt: "build_params today a = Inl AssertionError \<longleftrightarrow> \<not> (1 \<le> rows a \<and> rows a \<le> 1000)"
    by (simp add: build_params_def Let_def)
  show ?thesis using size_cursor until subst asrt by blast
qed

theorem C9_build_params_witness:
  "build_params ''2026-11-04'' example_args = Inr example_params
   \<and> build_params ''2026-11-04'' (example_args\<lparr>rows := 0\<rparr>) = Inl AssertionError
   \<and> build_params ''2026-11-04'' (example_args\<lparr>rows := 1001\<rparr>) = Inl AssertionError"
  using C9_build_params [of "''2026-11-04''" example_args]
        C9_build_params [of "''2026-11-04''" "example_args\<lparr>rows := 0\<rparr>"]
        C9_build_params [of "''2026-11-04''" "example_args\<lparr>rows := 1001\<rparr>"]
  by (simp add: example_args_def example_params_def build_params_def Let_def set_if_def)

lemma sig_dict_cong:
  assumes "\<forall>k\<in>set keep. map_of d1 k = map_of d2 k"
  shows "sig_dict d1 = sig_dict d2"
proof -
  have "map (\<lambda>k. case map_of d1 k of None \<Rightarrow> []
                  | Some v \<Rightarrow> (if v \<noteq> PNone then [(k, v)] else [])) keep
      = map (\<lambda>k. case map_of d2 k of None \<Rightarrow> []
                  | Some v \<Rightarrow> (if v \<noteq> PNone then [(k, v)] else [])) keep"
    using assms by (intro map_cong) simp_all
  then show ?thesis unfolding sig_dict_def by (rule arg_cong)
qed

lemma map_of_perm:
  assumes "distinct (map fst d1)" and "mset d1 = mset d2"
  shows "map_of d1 = map_of d2"
proof -
  have s: "set d1 = set d2" using assms(2) by (rule mset_eq_setD)
  have "mset (map fst d1) = mset (map fst d2)" using assms(2) by (metis mset_map)
  then have "distinct (map fst d2)" using assms(1) by (metis mset_eq_imp_distinct_iff)
  then show ?thesis using assms(1) s by (intro map_of_inject_set[THEN iffD2]) simp_all
qed

text \<open>
  C6. The digest depends only on the filter-relevant entries. Two dicts that agree on
  the keys of \<open>keep\<close> have the same digest; \<open>page[cursor]\<close> and \<open>page[size]\<close> are not
  among these keys, so overwriting them changes nothing; and a dict that holds the same
  items in another insertion order has the same digest.
\<close>

theorem C6_signature_order_independent:
  "((\<forall>k\<in>set keep. map_of d1 k = map_of d2 k) \<longrightarrow>
       sig_hash lib (sig_dict d1) = sig_hash lib (sig_dict d2))
   \<and> sig_hash lib (sig_dict (AList.update ''page[cursor]'' c (AList.update ''page[size]'' s d)))
       = sig_hash lib (sig_dict d)
   \<and> (distinct (map fst d1) \<and> mset d1 = mset d2 \<longrightarrow>
       sig_hash lib (sig_dict d1) = sig_hash lib (sig_dict d2))"
proof -
  have a: "sig_hash lib (sig_dict d1) = sig_hash lib (sig_dict d2)"
    if "\<forall>k\<in>set keep. map_of d1 k = map_of d2 k"
    using sig_dict_cong [OF that] by simp
  have "\<forall>k\<in>set keep.
          map_of (AList.update ''page[cursor]'' c (AList.update ''page[size]'' s d)) k = map_of d k"
    by (simp add: keep_def update_conv')
  then have b: "sig_dict (AList.update ''page[cursor]'' c (AList.update ''page[size]'' s d))
                = sig_dict d"
    by (rule sig_dict_cong)
  have c: "sig_hash lib (sig_dict d1) = sig_hash lib (sig_dict d2)"
    if "distinct (map fst d1) \<and> mset d1 = mset d2"
    using that map_of_perm [of d1 d2] sig_dict_cong [of d1 d2] by simp
  show ?thesis using a b c by simp
qed

theorem C6_signature_order_independent_witness:
  "map (map_of params_a) keep = map (map_of params_b) keep
   \<and> sig_dict params_a = [(''resource-type-id'', PStr ''Preprint''),
                          (''from-registered-date'', PStr ''2020-01-01'')]
   \<and> sig_hash toy_hashlib (sig_dict params_a) = sig_hash toy_hashlib (sig_dict params_b)"
proof -
  have h: "\<forall>k\<in>set keep. map_of params_a k = map_of params_b k"
    by (simp add: keep_def params_a_def params_b_def)
  have "sig_dict params_a = [(''resource-type-id'', PStr ''Preprint''),
                             (''from-registered-date'', PStr ''2020-01-01'')]"
    by (simp add: sig_dict_def keep_def params_a_def)
  moreover have "map (map_of params_a) keep = map (map_of params_b) keep"
    using h by simp
  ultimately show ?thesis
    using h C6_signature_order_independent [of params_a params_b toy_hashlib] by simp
qed

text \<open>
  C3. Six attempts that all answer 503 are six transient failures. No exception was
  caught, so \<open>last_exc\<close> is still \<open>None\<close> after the loop and the function falls off its
  end: it returns \<open>None\<close> after six sleeps and raises nothing.
\<close>

theorem C3_all_503_returns_none:
  "request_get (\<lambda>_. StatusOther 503 :: unit attempt) 6 = (ReturnedNone, [1, 2, 4, 8, 16, 32])"
  by (simp add: request_get_def transient_status_def eval_nat_numeral)

section \<open>Properties of the resumable stream\<close>

lemma build_params_cursor:
  assumes "build_params today a = Inr p"
  shows "map_of p ''page[cursor]'' =
           Some (PStr (if truthy (cursor a) then the (cursor a) else ''1''))"
  using assms
  by (auto simp add: build_params_def Let_def map_of_set_if split: if_splits)

lemma first_cursor_setdefault:
  "first_cursor (setdefault ''page[cursor]'' (PStr ''1'') d) =
     (case map_of d ''page[cursor]'' of Some v \<Rightarrow> v | None \<Rightarrow> PStr ''1'')"
proof (cases "map_of d ''page[cursor]''")
  case None
  then have "''page[cursor]'' \<notin> set (map fst d)"
    by (simp add: map_of_eq_None_iff)
  then show ?thesis using None by (simp add: first_cursor_def setdefault_def map_add_def)
next
  case (Some v)
  then have "''page[cursor]'' \<in> set (map fst d)"
    by (metis map_of_eq_None_iff option.distinct(1) set_map)
  then show ?thesis using Some by (simp add: first_cursor_def setdefault_def)
qed

lemma first_request:
  "hd (requests (fst (stream_datacite_with_resume parse_qs base ckpt rs)))
     = first_cursor (start_params base ckpt)"
  by (simp add: stream_datacite_with_resume_def Let_def requests_def
           split: list.split fetched.split prod.split)

text \<open>
  C5, as stated, at a pass whose parameters already carry a cursor (the caller's
  \<open>start_cursor\<close>) and that finds no checkpoint: the pass does not resume, and its
  first request uses that cursor, not \<open>"1"\<close>.
\<close>

theorem C5_fresh_start_not_sentinel:
  "\<not> resumes params_b None
   \<and> hd (requests (fst (stream_datacite_with_resume Some params_b None
                          ([] :: string page fetched list)))) = PStr ''MTYx''
   \<and> PStr ''MTYx'' \<noteq> PStr ''1''"
  by (simp add: first_request resumes_def start_params_def setdefault_def first_cursor_def
        params_b_def)

text \<open>
  C5, amended. The pass resumes exactly when a checkpoint was loaded, its signature
  equals the signature of the current parameters and its \<open>next_cursor\<close> is neither
  null nor empty; the first request then uses the checkpoint's cursor. In every other
  case the first request uses the cursor already present in the parameters, and
  \<open>"1"\<close> only when there is none: for parameters made by \<open>_build_params\<close> that is the
  caller's start cursor, or \<open>"1"\<close> when none was given.
\<close>

theorem C5_resume_decision:
  "(resumes base ckpt \<longleftrightarrow>
      (\<exists>c. ckpt = Some c \<and> set (signature c) = set (sig_dict base)
           \<and> next_cursor c \<noteq> None \<and> next_cursor c \<noteq> Some []))
   \<and> hd (requests (fst (stream_datacite_with_resume parse_qs base ckpt rs)))
       = (if resumes base ckpt then PStr (the (next_cursor (the ckpt)))
          else case map_of base ''page[cursor]'' of Some v \<Rightarrow> v | None \<Rightarrow> PStr ''1'')
   \<and> (build_params today a = Inr base \<and> \<not> resumes base ckpt \<longrightarrow>
        hd (requests (fst (stream_datacite_with_resume parse_qs base ckpt rs)))
          = PStr (if truthy (cursor a) then the (cursor a) else ''1''))"
proof -
  have r: "resumes base ckpt \<longleftrightarrow>
      (\<exists>c. ckpt = Some c \<and> set (signature c) = set (sig_dict base)
           \<and> next_cursor c \<noteq> None \<and> next_cursor c \<noteq> Some [])"
  proof (cases ckpt)
    case None
    then show ?thesis by (simp add: resumes_def)
  next
    case (Some c)
    then show ?thesis by (cases "next_cursor c") (simp_all add: resumes_def dict_eq_def)
  qed
  have f: "first_cursor (start_params base ckpt)
       = (if resumes base ckpt then PStr (the (next_cursor (the ckpt)))
          else case map_of base ''page[cursor]'' of Some v \<Rightarrow> v | None \<Rightarrow> PStr ''1'')"
    by (simp add: start_params_def first_cursor_setdefault)
       (simp add: first_cursor_def update_conv')
  have b: "first_cursor (start_params base ckpt)
             = PStr (if truthy (cursor a) then the (cursor a) else ''1'')"
    if "build_params today a = Inr base \<and> \<not> resumes base ckpt"
    using that f build_params_cursor [of today a base] by simp
  show ?thesis using r f b by (simp add: first_request)
qed

theorem C5_resume_decision_witness:
  "resumes params_a (Some \<lparr>signature = sig_dict params_b, next_cursor = Some ''c7''\<rparr>)
   \<and> hd (requests (fst (stream_datacite_with_resume Some params_a
            (Some \<lparr>signature = sig_dict params_b, next_cursor = Some ''c7''\<rparr>)
            three_pages))) = PStr ''c7''
   \<and> build_params ''2026-11-04'' example_args
       = Inr example_params
   \<and> \<not> resumes example_params
          (Some \<lparr>signature = [(''query'', PStr ''other'')], next_cursor = Some ''c7''\<rparr>)
   \<and> hd (requests (fst (stream_datacite_with_resume Some
            example_params
            (Some \<lparr>signature = [(''query'', PStr ''other'')], next_cursor = Some ''c7''\<rparr>)
            three_pages))) = PStr ''1''"
proof -
  have s: "sig_dict params_b = sig_dict params_a"
    by (simp add: sig_dict_def keep_def params_a_def params_b_def)
  have r: "resumes params_a (Some \<lparr>signature = sig_dict params_b, next_cursor = Some ''c7''\<rparr>)"
    by (simp add: resumes_def dict_eq_def s)
  have b: "build_params ''2026-11-04'' example_args
       = Inr example_params"
    by (simp add: example_args_def example_params_def build_params_def Let_def set_if_def)
  have n: "\<not> resumes example_params
          (Some \<lparr>signature = [(''query'', PStr ''other'')], next_cursor = Some ''c7''\<rparr>)"
    by (simp add: resumes_def dict_eq_def example_params_def sig_dict_def keep_def)
  have m: "map_of example_params ''page[cursor]'' = Some (PStr ''1'')"
    by (simp add: example_params_def)
  show ?thesis
    using r b n m
      C5_resume_decision [of params_a
        "Some \<lparr>signature = sig_dict params_b, next_cursor = Some ''c7''\<rparr>" Some three_pages
        "''2026-11-04''" example_args]
      C5_resume_decision [of example_params
        "Some \<lparr>signature = [(''query'', PStr ''other'')], next_cursor = Some ''c7''\<rparr>"
        Some three_pages "''2026-11-04''" example_args]
    by (simp add: example_args_def)
qed










lemma item_states_nonempty: "item_states cfg it s \<noteq> []"
  by (simp add: item_states_def Let_def)

lemma event_states_nonempty: "event_states cfg e s \<noteq> []"
  by (cases e) (simp_all add: item_states_nonempty)

lemma ckpt_write_chunk: "ckpt_file (write_chunk cfg s) = ckpt_file s"
  by (simp add: write_chunk_def)

lemma ckpt_write_ndjson: "ckpt_file (write_ndjson cfg s) = ckpt_file s"
  by (simp add: write_ndjson_def)

lemma ckpt_item_states: "ckpt_file (last (item_states cfg it s)) = ckpt_file s"
  by (simp add: item_states_def Let_def ckpt_write_chunk ckpt_write_ndjson split: option.split)

lemma ckpt_event_states:
  "ckpt_file (last (event_states cfg e s)) =
     (case e of Save c \<Rightarrow> if ckpt_writable cfg then Some c else ckpt_file s | _ \<Rightarrow> ckpt_file s)"
  by (cases e) (simp_all add: ckpt_item_states)







lemma three_pages_run:
  "stream_datacite_with_resume Some params_a None three_pages =
     ([Request (PStr ''1''), Yield ''a'',
       Save \<lparr>signature = sig_dict params_a, next_cursor = Some ''c2''\<rparr>,
       Request (PStr ''c2''), Yield ''b'',
       Save \<lparr>signature = sig_dict params_a, next_cursor = Some ''c3''\<rparr>,
       Request (PStr ''c3''), Yield ''c'',
       Save \<lparr>signature = sig_dict params_a, next_cursor = None\<rparr>], Done)"
  by (simp add: stream_datacite_with_resume_def three_pages_def Let_def parse_next_cursor_def
        start_params_def resumes_def setdefault_def first_cursor_def params_a_def)




lemma rows_of_snoc:
  "rows_of cfg (xs @ [x]) = rows_of cfg xs @ (case one_row_wide cfg x of None \<Rightarrow> [] | Some r \<Rightarrow> [r])"
  by (simp add: rows_of_def List.map_filter_def split: option.split)

lemma rows_of_mono:
  "set xs \<subseteq> set ys \<Longrightarrow> set (rows_of cfg xs) \<subseteq> set (rows_of cfg ys)"
  by (auto simp add: rows_of_def List.map_filter_def)

lemma durable_write_chunk:
  assumes "truthy (incremental_save_dir cfg)"
  shows "durable (write_chunk cfg s) = durable s @ buffer_rows s"
proof -
  have "map (\<lambda>i. case ((shard_files s)(chunk_idx_global s \<mapsto> buffer_rows s)) i of
                    Some rs \<Rightarrow> rs | None \<Rightarrow> []) [0 ..< chunk_idx_global s]
      = map (\<lambda>i. case shard_files s i of Some rs \<Rightarrow> rs | None \<Rightarrow> []) [0 ..< chunk_idx_global s]"
    by (rule map_cong) simp_all
  then have "concat (map (\<lambda>i. case ((shard_files s)(chunk_idx_global s \<mapsto> buffer_rows s)) i of
                    Some rs \<Rightarrow> rs | None \<Rightarrow> []) [0 ..< chunk_idx_global s])
      = concat (map (\<lambda>i. case shard_files s i of Some rs \<Rightarrow> rs | None \<Rightarrow> [])
                 [0 ..< chunk_idx_global s])"
    by (rule arg_cong)
  then show ?thesis using assms
    by (simp add: durable_def write_chunk_def fun_upd_same del: fun_upd_apply)
qed

lemma durable_write_ndjson: "durable (write_ndjson cfg s) = durable s"
  by (simp add: durable_def write_ndjson_def)

lemma write_chunk_fields:
  "buffer_rows (write_chunk cfg s) = buffer_rows s" "yielded (write_chunk cfg s) = yielded s"
  "unrefetchable (write_chunk cfg s) = unrefetchable s"
  by (simp_all add: write_chunk_def)

lemma write_ndjson_fields:
  "buffer_rows (write_ndjson cfg s) = buffer_rows s" "yielded (write_ndjson cfg s) = yielded s"
  "unrefetchable (write_ndjson cfg s) = unrefetchable s"
  by (simp_all add: write_ndjson_def)

lemma durable_upd:
  "durable (s\<lparr>buffer_rows := b\<rparr>) = durable s"
  "durable (s\<lparr>yielded := x\<rparr>) = durable s"
  "durable (s\<lparr>page_items := x\<rparr>) = durable s"
  "durable (s\<lparr>unrefetchable := x\<rparr>) = durable s"
  "durable (s\<lparr>ckpt_file := k\<rparr>) = durable s"
  "durable (s\<lparr>all_rows := b\<rparr>) = durable s"
  by (simp_all add: durable_def)

lemma item_states_inv:
  assumes dir: "truthy (incremental_save_dir cfg)"
    and c: "covered cfg s" and l: "int (length (buffer_rows s)) < incremental_every cfg"
  shows "(\<forall>t\<in>set (item_states cfg it s).
            covered cfg t \<and> int (length (buffer_rows t)) \<le> incremental_every cfg)
         \<and> covered cfg (last (item_states cfg it s))
         \<and> int (length (buffer_rows (last (item_states cfg it s)))) < incremental_every cfg"
  using c l
  by (cases "one_row_wide cfg it")
     (auto simp add: item_states_def Let_def covered_def rows_of_snoc durable_upd
        durable_write_chunk [OF dir] durable_write_ndjson write_chunk_fields write_ndjson_fields)


lemma event_states_inv:
  assumes dir: "truthy (incremental_save_dir cfg)"
    and c: "covered cfg s" and l: "int (length (buffer_rows s)) < incremental_every cfg"
  shows "(\<forall>t\<in>set (event_states cfg e s).
            covered cfg t \<and> int (length (buffer_rows t)) \<le> incremental_every cfg)
         \<and> covered cfg (last (event_states cfg e s))
         \<and> int (length (buffer_rows (last (event_states cfg e s)))) < incremental_every cfg"
proof (cases e)
  case (Request x)
  then show ?thesis using c l by (simp add: covered_def durable_upd)
next
  case (Yield it)
  then show ?thesis using item_states_inv [OF dir c l, of it] by simp
next
  case (Save k)
  then show ?thesis using c l by (auto simp add: covered_def durable_upd)
qed

lemma run_events_inv:
  assumes dir: "truthy (incremental_save_dir cfg)"
  shows "covered cfg s \<Longrightarrow> int (length (buffer_rows s)) < incremental_every cfg \<Longrightarrow>
         (\<forall>t\<in>set (run_events cfg evs s).
            covered cfg t \<and> int (length (buffer_rows t)) \<le> incremental_every cfg)
         \<and> covered cfg (last (s # run_events cfg evs s))
         \<and> int (length (buffer_rows (last (s # run_events cfg evs s)))) < incremental_every cfg"
proof (induction evs arbitrary: s)
  case Nil
  then show ?case by simp
next
  case (Cons e es)
  let ?m = "last (event_states cfg e s)"
  note ev = event_states_inv [OF dir Cons.prems, of e]
  from ev have "covered cfg ?m" and "int (length (buffer_rows ?m)) < incremental_every cfg"
    by simp_all
  note ih = Cons.IH [OF this]
  have r: "run_events cfg (e # es) s = event_states cfg e s @ run_events cfg es ?m"
    by (simp add: Let_def)
  have la: "last (s # run_events cfg (e # es) s) = last (?m # run_events cfg es ?m)"
    by (simp only: r) (simp add: event_states_nonempty)
  show ?case unfolding la using ev ih by (auto simp add: r simp del: run_events.simps)
qed

lemma final_flush_inv:
  assumes dir: "truthy (incremental_save_dir cfg)"
    and c: "covered cfg s" and l: "int (length (buffer_rows s)) < incremental_every cfg"
  shows "\<forall>t\<in>set (final_flush cfg s).
            covered cfg t \<and> int (length (buffer_rows t)) \<le> incremental_every cfg"
  using c l
  by (auto simp add: final_flush_def Let_def covered_def durable_upd
        durable_write_chunk [OF dir] durable_write_ndjson write_chunk_fields write_ndjson_fields)

lemma pass_states_inv:
  assumes dir: "truthy (incremental_save_dir cfg)" and ev: "1 \<le> incremental_every cfg"
    and t: "t \<in> set (pass_states cfg run s)"
  shows "covered cfg t \<and> int (length (buffer_rows t)) \<le> incremental_every cfg"
proof -
  let ?s0 = "pass_start s"
  have c0: "covered cfg ?s0" by (simp add: covered_def pass_start_def rows_of_def List.map_filter_def)
  have l0: "int (length (buffer_rows ?s0)) < incremental_every cfg"
    using ev by (simp add: pass_start_def)
  note re = run_events_inv [OF dir c0 l0, of "fst run"]
  from re have fl: "\<forall>t\<in>set (final_flush cfg (last (?s0 # run_events cfg (fst run) ?s0))).
            covered cfg t \<and> int (length (buffer_rows t)) \<le> incremental_every cfg"
    by (intro final_flush_inv [OF dir]) simp_all
  from t have "t = ?s0 \<or> t \<in> set (run_events cfg (fst run) ?s0)
      \<or> t \<in> set (final_flush cfg (last (?s0 # run_events cfg (fst run) ?s0)))"
    by (auto simp add: pass_states_def Let_def split: if_splits)
  then show ?thesis using c0 l0 re fl by auto
qed

lemma lost_in_buffer:
  assumes "covered cfg t"
  shows "set (lost cfg t) \<subseteq> set (buffer_rows t)"
proof
  fix r assume "r \<in> set (lost cfg t)"
  then have a: "r \<in> set (rows_of cfg (unrefetchable t))" and b: "r \<notin> set (durable t)"
    by (simp_all add: lost_def)
  from assms have "set (rows_of cfg (unrefetchable t)) \<subseteq> set (rows_of cfg (yielded t))"
    by (intro rows_of_mono) (simp add: covered_def)
  with a have "r \<in> set (rows_of cfg (yielded t))" by blast
  with assms b show "r \<in> set (buffer_rows t)" by (auto simp add: covered_def)
qed

text \<open>
  C2, amended. With a shard directory configured and a flush threshold of at least
  one, at every point at which a pass can be interrupted, each fetched record that a
  resumed run would not fetch again is in a chunk file on disk or in the in-memory
  buffer, and the buffer holds at most \<open>incremental_every\<close> rows. What an
  interruption can lose is bounded by the flush threshold, not by one page.
\<close>

theorem C2_loss_bounded_by_buffer:
  assumes "truthy (incremental_save_dir cfg)" and "1 \<le> incremental_every cfg"
    and "t \<in> set (pass_states cfg (stream_datacite_with_resume parse_qs base ckpt rs) s)"
  shows "set (lost cfg t) \<subseteq> set (buffer_rows t)
         \<and> int (length (buffer_rows t)) \<le> incremental_every cfg"
  using pass_states_inv [OF assms] lost_in_buffer [of cfg t] by simp

lemma crash_state_eq:
  "crash_state = \<lparr> ckpt_file = Some \<lparr>signature = sig_dict params_a, next_cursor = Some ''c3''\<rparr>,
     shard_files = (\<lambda>_. None), chunk_idx_global = 0,
     ndjson = [], buffer_rows = [''a'', ''b''], all_rows = [], yielded = [''a'', ''b''],
     page_items = [''b''], unrefetchable = [''a'', ''b''] \<rparr>"
  by (simp add: crash_state_def three_pages_run pass_states_def pass_start_def Let_def
        item_states_def example_config_def empty_state_def)

text \<open>
  C2, as stated, at a run of three one-item pages with a flush threshold of ten,
  interrupted right after its second checkpoint: the records \<open>a\<close> and \<open>b\<close> are
  behind the saved cursor and in no chunk file, and \<open>a\<close> is not in the page
  fetched last. The checkpoint was advanced past records held only in the buffer.
\<close>

theorem C2_two_pages_lost:
  "crash_state \<in> set (pass_states example_config
                        (stream_datacite_with_resume Some params_a None three_pages) empty_state)
   \<and> lost example_config crash_state = [''a'', ''b'']
   \<and> rows_of example_config (page_items crash_state) = [''b'']
   \<and> \<not> set (lost example_config crash_state)
          \<subseteq> set (rows_of example_config (page_items crash_state))"
proof -
  have "length (pass_states example_config
          (stream_datacite_with_resume Some params_a None three_pages) empty_state) > 6"
    by (simp add: three_pages_run pass_states_def pass_start_def Let_def
        item_states_def example_config_def empty_state_def final_flush_def)
  then have "crash_state \<in> set (pass_states example_config
                        (stream_datacite_with_resume Some params_a None three_pages) empty_state)"
    unfolding crash_state_def by (rule nth_mem)
  then show ?thesis
    by (simp add: crash_state_eq lost_def durable_def rows_of_def List.map_filter_def
          example_config_def)
qed

theorem C2_loss_bounded_by_buffer_witness:
  "truthy (incremental_save_dir example_config) \<and> 1 \<le> incremental_every example_config
   \<and> crash_state \<in> set (pass_states example_config
                        (stream_datacite_with_resume Some params_a None three_pages) empty_state)
   \<and> set (lost example_config crash_state) \<subseteq> set (buffer_rows crash_state)
   \<and> int (length (buffer_rows crash_state)) \<le> incremental_every example_config"
proof -
  have a: "truthy (incremental_save_dir example_config)" by (simp add: example_config_def)
  have b: "1 \<le> incremental_every example_config" by (simp add: example_config_def)
  have "length (pass_states example_config
          (stream_datacite_with_resume Some params_a None three_pages) empty_state) > 6"
    by (simp add: three_pages_run pass_states_def pass_start_def Let_def
        item_states_def example_config_def empty_state_def final_flush_def)
  then have c: "crash_state \<in> set (pass_states example_config
                        (stream_datacite_with_resume Some params_a None three_pages) empty_state)"
    unfolding crash_state_def by (rule nth_mem)
  show ?thesis using a b c C2_loss_bounded_by_buffer [OF a b c] by simp
qed

section \<open>Properties of the shard discovery\<close>


lemma scan_folder_append:
  "scan_folder fs nc fld fps (sn, recs)
     = (fst (scan_folder fs nc fld fps (sn, [])), recs @ snd (scan_folder fs nc fld fps (sn, [])))"
proof (induction fps arbitrary: sn recs)
  case Nil
  then show ?case by simp
next
  case (Cons f fps)
  let ?r = "\<lparr>folder = fld, filepath = norm fs f, filename = basename fs (norm fs f)\<rparr>"
  let ?sn = "insert (norm fs f) sn"
  show ?case
  proof (cases "norm fs f \<in> sn")
    case True
    then show ?thesis using Cons.IH [of sn recs] by simp
  next
    case False
    show ?thesis
    proof (cases "nc \<noteq> [] \<and> \<not> contains nc (basename fs (norm fs f))")
      case True
      then show ?thesis using False Cons.IH [of ?sn recs] by (simp add: Let_def)
    next
      case skip: False
      have a: "scan_folder fs nc fld (f # fps) (sn, recs)
                 = scan_folder fs nc fld fps (?sn, recs @ [?r])"
        using False skip by (auto simp add: Let_def)
      have b: "scan_folder fs nc fld (f # fps) (sn, [])
                 = scan_folder fs nc fld fps (?sn, [?r])"
        using False skip by (auto simp add: Let_def)
      show ?thesis
        unfolding a b
        using Cons.IH [of ?sn "recs @ [?r]"] Cons.IH [of ?sn "[?r]"] by simp
    qed
  qed
qed

lemma scan_folders_append:
  "scan_folders fs nc flds (sn, recs)
     = (fst (scan_folders fs nc flds (sn, [])), recs @ snd (scan_folders fs nc flds (sn, [])))"
proof (induction flds arbitrary: sn recs)
  case Nil
  then show ?case by simp
next
  case (Cons fld flds)
  obtain s1 r1 where a: "scan_folder fs nc fld (iglob fs fld) (sn, []) = (s1, r1)"
    by (cases "scan_folder fs nc fld (iglob fs fld) (sn, [])")
  have b: "scan_folder fs nc fld (iglob fs fld) (sn, recs) = (s1, recs @ r1)"
    using scan_folder_append [of fs nc fld "iglob fs fld" sn recs] a by simp
  show ?case
    using Cons.IH [of s1 "recs @ r1"] Cons.IH [of s1 r1] by (simp add: a b)
qed

lemma discover_loop_step:
  "discover_loop fs nc old (p # ps) recs =
     (if \<not> path_exists fs (norm fs p) then discover_loop fs nc old ps recs
      else discover_loop fs nc old ps
             (recs @ snd (scan_folders fs nc (folders_of fs old p) ({}, []))))"
proof -
  obtain s1 r1 where a: "scan_folders fs nc (folders_of fs old p) ({}, recs) = (s1, r1)"
    by (cases "scan_folders fs nc (folders_of fs old p) ({}, recs)")
  have b: "r1 = recs @ snd (scan_folders fs nc (folders_of fs old p) ({}, []))"
    using scan_folders_append [of fs nc "folders_of fs old p" "{}" recs] a by simp
  have "discover_loop fs nc old (p # ps) recs =
     (if \<not> path_exists fs (norm fs p) then discover_loop fs nc old ps recs
      else discover_loop fs nc old ps r1)"
    using a [unfolded folders_of_def]
    by (cases "path_exists fs (norm fs p)")
       (simp_all add: Let_def split del: if_split del: scan_folders.simps)
  then show ?thesis unfolding b .
qed

lemma discover_loop_append:
  "discover_loop fs nc old ps recs = recs @ discover_loop fs nc old ps []"
proof (induction ps arbitrary: recs)
  case Nil
  then show ?case by simp
next
  case (Cons p ps)
  let ?new = "snd (scan_folders fs nc (folders_of fs old p) ({}, []))"
  show ?case
  proof (cases "path_exists fs (norm fs p)")
    case False
    then show ?thesis using Cons.IH [of recs] by (simp only: discover_loop_step) simp
  next
    case True
    have "discover_loop fs nc old (p # ps) recs = discover_loop fs nc old ps (recs @ ?new)"
      using True by (simp only: discover_loop_step) simp
    also have "\<dots> = (recs @ ?new) @ discover_loop fs nc old ps []"
      by (rule Cons.IH)
    also have "\<dots> = recs @ discover_loop fs nc old ps ?new"
      using Cons.IH [of ?new] by simp
    also have "discover_loop fs nc old ps ?new = discover_loop fs nc old (p # ps) []"
      using True by (simp only: discover_loop_step) simp
    finally show ?thesis .
  qed
qed

lemma discover_loop_concat:
  "discover_loop fs nc old (ps @ qs) [] = discover_loop fs nc old ps [] @ discover_loop fs nc old qs []"
proof (induction ps)
  case Nil
  then show ?case by simp
next
  case (Cons p ps)
  let ?new = "snd (scan_folders fs nc (folders_of fs old p) ({}, []))"
  show ?case
  proof (cases "path_exists fs (norm fs p)")
    case False
    then show ?thesis using Cons.IH by (simp only: append_Cons discover_loop_step) simp
  next
    case True
    have "discover_loop fs nc old ((p # ps) @ qs) [] = discover_loop fs nc old (ps @ qs) ?new"
      using True by (simp only: append_Cons discover_loop_step) simp
    also have "\<dots> = ?new @ discover_loop fs nc old (ps @ qs) []"
      by (rule discover_loop_append)
    also have "\<dots> = ?new @ discover_loop fs nc old ps [] @ discover_loop fs nc old qs []"
      by (simp only: Cons.IH)
    also have "\<dots> = discover_loop fs nc old ps ?new @ discover_loop fs nc old qs []"
      using discover_loop_append [of fs nc old ps ?new] by simp
    also have "discover_loop fs nc old ps ?new = discover_loop fs nc old (p # ps) []"
      using True by (simp only: discover_loop_step) simp
    finally show ?thesis .
  qed
qed

lemma scan_folder_tidy:
  "tidy (sn, recs) \<Longrightarrow> tidy (scan_folder fs nc fld fps (sn, recs))"
proof (induction fps arbitrary: sn recs)
  case Nil
  then show ?case by simp
next
  case (Cons f fps)
  have 1: "tidy (insert (norm fs f) sn, recs)"
    using Cons.prems by (auto simp add: tidy_def)
  have 2: "tidy (insert (norm fs f) sn,
             recs @ [\<lparr>folder = fld, filepath = norm fs f, filename = basename fs (norm fs f)\<rparr>])"
    if "norm fs f \<notin> sn"
    using Cons.prems that by (auto simp add: tidy_def)
  show ?case
    using Cons.IH [OF Cons.prems] Cons.IH [OF 1] Cons.IH [OF 2] by (simp add: Let_def)
qed

lemma scan_folders_tidy:
  "tidy acc \<Longrightarrow> tidy (scan_folders fs nc flds acc)"
proof (induction flds arbitrary: acc)
  case Nil
  then show ?case by simp
next
  case (Cons fld flds)
  obtain sn recs where a: "acc = (sn, recs)" by (cases acc)
  have "tidy (scan_folder fs nc fld (iglob fs fld) acc)"
    using Cons.prems unfolding a by (rule scan_folder_tidy)
  then show ?case using Cons.IH by simp
qed

lemma discover_single_distinct:
  "distinct (map filepath (discover_loop fs nc old [p] []))"
proof -
  have "tidy (scan_folders fs nc (folders_of fs old p) ({}, []))"
    by (rule scan_folders_tidy) (simp add: tidy_def)
  then show ?thesis
    by (simp only: discover_loop_step discover_loop.simps(1) split: if_split)
       (simp add: tidy_def)
qed

text \<open>
  C8, amended. A root directory that does not exist is skipped. The records found
  under one root never share a normalised path, also when a file is reached both from
  the root and from one of its immediate children. The \<open>seen\<close> set is made anew for
  every root, so the result for a list of roots is the concatenation of the results
  for each root, and a file under two roots is listed once for each.
\<close>

theorem C8_discovery_per_root:
  "(\<not> path_exists fs (norm fs p) \<longrightarrow>
      discover_parquet_files fs (p # ps) nc old = discover_parquet_files fs ps nc old)
   \<and> distinct (map filepath (discover_parquet_files fs [p] nc old))
   \<and> discover_parquet_files fs (ps @ qs) nc old
       = discover_parquet_files fs ps nc old @ discover_parquet_files fs qs nc old"
  using discover_single_distinct [of fs nc old p] discover_loop_concat [of fs nc old ps qs]
    discover_loop_step [of fs nc old p ps "[]"]
  by (simp add: discover_parquet_files_def del: discover_loop.simps(2))

lemma example_discover:
  "discover_parquet_files example_fs [''data''] [] True =
     [\<lparr>folder = ''data'', filepath = ''data/run1/s1.parquet'', filename = ''s1.parquet''\<rparr>,
      \<lparr>folder = ''data'', filepath = ''data/run2/s2.parquet'', filename = ''s2.parquet''\<rparr>,
      \<lparr>folder = ''data'', filepath = ''data/run2/bad.parquet'', filename = ''bad.parquet''\<rparr>]"
  by (simp add: discover_parquet_files_def example_fs_def Let_def)

text \<open>
  C8, as stated, at the roots \<open>data\<close> and \<open>data/run1\<close>: the shard
  \<open>data/run1/s1.parquet\<close> lies under both and is listed twice.
\<close>

theorem C8_two_roots_duplicate:
  "map filepath (discover_parquet_files example_fs [''data'', ''data/run1''] [] True)
     = [''data/run1/s1.parquet'', ''data/run2/s2.parquet'', ''data/run2/bad.parquet'',
        ''data/run1/s1.parquet'']
   \<and> \<not> distinct (map filepath
          (discover_parquet_files example_fs [''data'', ''data/run1''] [] True))"
  by (simp add: discover_parquet_files_def example_fs_def Let_def)

theorem C8_discovery_per_root_witness:
  "\<not> path_exists example_fs (norm example_fs ''missing'')
   \<and> discover_parquet_files example_fs [''missing'', ''data''] [] True
       = discover_parquet_files example_fs [''data''] [] True
   \<and> map filepath (discover_parquet_files example_fs [''data''] [] True)
       = [''data/run1/s1.parquet'', ''data/run2/s2.parquet'', ''data/run2/bad.parquet'']
   \<and> distinct (map filepath (discover_parquet_files example_fs [''data''] [] True))"
proof -
  have "\<not> path_exists example_fs (norm example_fs ''missing'')"
    by (simp add: example_fs_def)
  then show ?thesis
    using C8_discovery_per_root [of example_fs "''missing''" "[''data'']" "[]" True "[]"]
      C8_discovery_per_root [of example_fs "''data''" "[]" "[]" True "[]"]
    by (simp add: example_discover)
qed

section \<open>Properties of the schema unification\<close>


lemma add_field_names:
  "add_field (n, t) fs = Inr fs' \<Longrightarrow> set (map fst fs') = insert n (set (map fst fs))"
proof (induction fs arbitrary: fs')
  case Nil
  then show ?case by auto
next
  case (Cons a fs)
  obtain m u where a: "a = (m, u)" by (cases a)
  show ?case
  proof (cases "n = m")
    case True
    then show ?thesis using Cons.prems a by (auto split: option.splits)
  next
    case False
    then obtain r where r: "add_field (n, t) fs = Inr r" and f: "fs' = (m, u) # r"
      using Cons.prems a by (auto split: sum.splits)
    from Cons.IH [OF r] show ?thesis using f a by auto
  qed
qed

lemma add_field_map_other:
  "n \<noteq> m \<Longrightarrow>
     add_field_map (n, t) (Some (M(m \<mapsto> u)))
       = map_option (\<lambda>M'. M'(m \<mapsto> u)) (add_field_map (n, t) (Some M))"
  by (auto simp add: add_field_map_def fun_upd_twist split: option.splits)

lemma add_field_agrees:
  "distinct (map fst fs) \<Longrightarrow> agrees (add_field (n, t) fs) (add_field_map (n, t) (Some (map_of fs)))"
proof (induction fs)
  case Nil
  then show ?case by (simp add: add_field_map_def)
next
  case (Cons a fs)
  obtain m u where a: "a = (m, u)" by (cases a)
  from Cons.prems a have d: "distinct (map fst fs)" and nm: "m \<notin> set (map fst fs)" by simp_all
  show ?case
  proof (cases "n = m")
    case True
    then show ?thesis using a d nm
      by (cases "merge_type u t") (auto simp add: add_field_map_def)
  next
    case False
    note ih = Cons.IH [OF d]
    show ?thesis
    proof (cases "add_field (n, t) fs")
      case (Inl e)
      then have "add_field_map (n, t) (Some (map_of fs)) = None" using ih by simp
      then show ?thesis using Inl False a
        by (auto simp add: add_field_map_def split: option.splits)
    next
      case (Inr r)
      then have m: "add_field_map (n, t) (Some (map_of fs)) = Some (map_of r)"
        and dr: "distinct (map fst r)" using ih by simp_all
      from add_field_names [OF Inr] nm False have "m \<notin> set (map fst r)" by auto
      with dr have dist: "distinct (map fst ((m, u) # r))" by simp
      have lhs: "add_field (n, t) (a # fs) = Inr ((m, u) # r)"
        using Inr False a by simp
      have rhs: "add_field_map (n, t) (Some (map_of (a # fs))) = Some (map_of ((m, u) # r))"
        using m False add_field_map_other [of n m t "map_of fs" u] a by simp
      show ?thesis by (simp only: lhs rhs agrees.simps dist)
    qed
  qed
qed

lemma fold_none: "fold add_field_map fs None = None"
  by (induction fs) (simp_all add: add_field_map_def)

lemma add_fields_agrees:
  "distinct (map fst acc) \<Longrightarrow>
     agrees (add_fields fs acc) (fold add_field_map fs (Some (map_of acc)))"
proof (induction fs arbitrary: acc)
  case Nil
  then show ?case by simp
next
  case (Cons f fs)
  obtain n t where f: "f = (n, t)" by (cases f)
  note a = add_field_agrees [OF Cons.prems, of n t]
  show ?case
  proof (cases "add_field (n, t) acc")
    case (Inl e)
    then show ?thesis using a f by (simp add: fold_none)
  next
    case (Inr r)
    then show ?thesis using a f Cons.IH [of r] by simp
  qed
qed

lemma merge_type_assoc:
  "Option.bind (merge_type u t) (\<lambda>v. merge_type v t')
     = Option.bind (merge_type u t') (\<lambda>v. merge_type v t)"
  by (auto simp add: merge_type_def)

lemma merge_type_comm: "merge_type a b = merge_type b a"
  by (auto simp add: merge_type_def)

lemma add_field_map_commute:
  "add_field_map f (add_field_map g M) = add_field_map g (add_field_map f M)"
proof (cases M)
  case None
  then show ?thesis by (simp add: add_field_map_def)
next
  case (Some m)
  obtain n t where f: "f = (n, t)" by (cases f)
  obtain n' t' where g: "g = (n', t')" by (cases g)
  show ?thesis
  proof (cases "n = n'")
    case False
    then show ?thesis using Some f g
      by (auto simp add: add_field_map_def fun_upd_twist split: option.splits)
  next
    case True
    show ?thesis
    proof (cases "m n")
      case None
      then show ?thesis using Some f g True
        by (auto simp add: add_field_map_def merge_type_def split: option.splits if_splits)
    next
      case (Some u)
      then show ?thesis using \<open>M = Some m\<close> f g True
        by (auto simp add: add_field_map_def merge_type_def split: option.splits if_splits)
    qed
  qed
qed

lemma fold_add_field_map_perm:
  assumes "mset fs = mset gs"
  shows "fold add_field_map fs M = fold add_field_map gs M"
proof -
  have "fold add_field_map fs = fold add_field_map gs"
    using assms by (intro fold_multiset_equiv) (auto simp add: fun_eq_iff add_field_map_commute)
  then show ?thesis by simp
qed

lemma agrees_same_columns:
  assumes "agrees a M" and "agrees b M"
  shows "same_columns a b"
proof (cases a)
  case (Inl e)
  then show ?thesis using assms by (cases b) auto
next
  case (Inr r)
  show ?thesis
  proof (cases b)
    case (Inl e)
    then show ?thesis using assms Inr by auto
  next
    case (Inr r')
    from assms \<open>a = Inr r\<close> Inr have m: "map_of r = map_of r'"
      and d: "distinct (map fst r)" and d': "distinct (map fst r')" by auto
    then have s: "set r = set r'" by (simp add: map_of_inject_set)
    from d d' have "distinct r" "distinct r'" by (auto simp add: distinct_map)
    then have "length r = length r'" using s by (metis distinct_card)
    then show ?thesis using s \<open>a = Inr r\<close> Inr by simp
  qed
qed

lemma unify_schemas_perm:
  assumes "mset ss = mset ss'"
  shows "same_columns (unify_schemas ss) (unify_schemas ss')"
proof -
  have "mset (concat ss) = mset (concat ss')"
    using assms by (metis mset_concat mset_map sum_mset_sum_list)
  then have "fold add_field_map (concat ss) (Some (map_of [])) = fold add_field_map (concat ss') (Some (map_of []))"
    by (rule fold_add_field_map_perm)
  moreover have "agrees (unify_schemas ss) (fold add_field_map (concat ss) (Some (map_of [])))"
    unfolding unify_schemas_def by (rule add_fields_agrees) simp
  moreover have "agrees (unify_schemas ss') (fold add_field_map (concat ss') (Some (map_of [])))"
    unfolding unify_schemas_def by (rule add_fields_agrees) simp
  ultimately show ?thesis using agrees_same_columns by metis
qed

lemma map_filter_perm:
  assumes "mset ps = mset qs"
  shows "mset (List.map_filter f ps) = mset (List.map_filter f qs)"
  using assms by (simp add: List.map_filter_def)

text \<open>
  C7, amended. For two lists of shard paths that are permutations of each other,
  \<open>_collect_unified_schema\<close> either fails on both or gives two schemas with the same
  columns (names with their types) and the same number of them. The order of the
  columns follows the first appearance in the list and so can differ.
\<close>

theorem C7_unified_columns_order_free:
  assumes "mset ps = mset qs"
  shows "same_columns (collect_unified_schema read_schema ps)
                      (collect_unified_schema read_schema qs)"
proof -
  let ?f = "\<lambda>p. map_option score_to_float64 (read_schema p)"
  have m: "mset (List.map_filter ?f ps) = mset (List.map_filter ?f qs)"
    using assms by (rule map_filter_perm)
  then have e: "List.map_filter ?f ps = [] \<longleftrightarrow> List.map_filter ?f qs = []"
    by (metis mset_zero_iff)
  show ?thesis
  proof (cases "List.map_filter ?f ps = []")
    case True
    then show ?thesis using e by (simp add: collect_unified_schema_def)
  next
    case False
    then show ?thesis using e unify_schemas_perm [OF m]
      by (simp add: collect_unified_schema_def)
  qed
qed

text \<open>
  C7, as stated, at two shards \<open>A\<close> (columns \<open>doi\<close>, \<open>score\<close>) and \<open>B\<close> (columns
  \<open>title\<close>, \<open>doi\<close>): the unified schema of \<open>[A, B]\<close> starts with \<open>doi\<close>, the one
  of \<open>[B, A]\<close> with \<open>title\<close>; the two schemas are not the same.
\<close>

theorem C7_column_order_differs:
  "collect_unified_schema two_shards [''A'', ''B'']
     = Inr [(''doi'', TString), (''score'', TFloat64), (''title'', TString)]
   \<and> collect_unified_schema two_shards [''B'', ''A'']
     = Inr [(''title'', TString), (''doi'', TString), (''score'', TFloat64)]
   \<and> collect_unified_schema two_shards [''A'', ''B'']
       \<noteq> collect_unified_schema two_shards [''B'', ''A'']"
  by (simp add: collect_unified_schema_def two_shards_def List.map_filter_simps
        score_to_float64_def unify_schemas_def merge_type_def)

theorem C7_unified_columns_order_free_witness:
  "mset [''A'', ''B'', ''C''] = mset [''C'', ''A'', ''B'']
   \<and> same_columns (collect_unified_schema two_shards [''A'', ''B'', ''C''])
                   (collect_unified_schema two_shards [''C'', ''A'', ''B''])
   \<and> collect_unified_schema two_shards [''C'', ''A'', ''B'']
       = Inr [(''doi'', TString), (''score'', TFloat64), (''title'', TString)]"
proof -
  have h: "mset [''A'', ''B'', ''C''] = mset [''C'', ''A'', ''B'']" by simp
  have "collect_unified_schema two_shards [''C'', ''A'', ''B'']
       = Inr [(''doi'', TString), (''score'', TFloat64), (''title'', TString)]"
    by (simp add: collect_unified_schema_def two_shards_def List.map_filter_simps
        score_to_float64_def unify_schemas_def merge_type_def)
  with h C7_unified_columns_order_free [OF h, of two_shards] show ?thesis by blast
qed


section \<open>Properties of the merge and of the deduplication\<close>


lemma merge_loop_eq:
  "merge_loop env sch ps (n, w) =
     (n + sum_list (map num_rows (List.map_filter (merged_shard env sch) ps)),
      if writer_open_ok env then w @ List.map_filter (merged_shard env sch) ps else w)"
proof (induction ps arbitrary: n w)
  case Nil
  then show ?case by (simp add: List.map_filter_simps)
next
  case (Cons p ps)
  show ?case
  proof (cases "merged_shard env sch p")
    case None
    then show ?thesis using Cons.IH [of n w] by (simp add: List.map_filter_simps)
  next
    case (Some t)
    then show ?thesis
      using Cons.IH [of "n + num_rows t" "w @ [t]"] Cons.IH [of "n + num_rows t" w]
      by (simp add: List.map_filter_simps)
  qed
qed

lemma merged_shard_closed:
  "\<not> writer_open_ok env \<Longrightarrow> merged_shard env sch = aligned env sch"
  by (rule ext) (simp add: merged_shard_def split: option.split)

text \<open>
  C10, amended. Whenever \<open>merge_parquets\<close> returns, the report's \<open>inputs\<close> are the
  paths of all discovered shards, readable or not. \<open>rows_written\<close> is the sum of the
  row counts of the shards whose \<open>try\<close> body completed: the shards that read, align
  and, when the writer is open, are written without error; this holds whatever
  became of the output file. When the writer could not be opened these are all the
  shards that read and align. The \<open>parquet\<close> entry is null exactly when the writer
  could not be opened or the rename of the temporary file failed, so a null
  \<open>parquet\<close> can stand beside a positive \<open>rows_written\<close>.
\<close>

theorem C10_rows_written_independent:
  assumes "merge_parquets env a = Inr (rep, file)"
  shows "inputs rep = map filepath (discover_parquet_files (fsys env) (input_parent_dirs a)
                                       (name_contains a) (one_level_deep a))
    \<and> (\<exists>sch. collect_unified_schema (schema_arrow env) (inputs rep) = Inr sch
          \<and> rows_written rep
              = sum_list (map num_rows (List.map_filter (merged_shard env sch) (inputs rep)))
          \<and> (\<not> writer_open_ok env \<longrightarrow>
               rows_written rep
                 = sum_list (map num_rows (List.map_filter (aligned env sch) (inputs rep)))))
    \<and> (parquet rep = None \<longleftrightarrow>
         \<not> writer_open_ok env \<or> (tmp_exists env \<and> \<not> replace_ok env))"
proof -
  let ?paths = "map filepath (discover_parquet_files (fsys env) (input_parent_dirs a)
                                (name_contains a) (one_level_deep a))"
  obtain sch where s: "collect_unified_schema (schema_arrow env) ?paths = Inr sch"
    using assms by (cases "collect_unified_schema (schema_arrow env) ?paths")
      (simp_all add: merge_parquets_def Let_def split: if_splits)
  have i: "inputs rep = ?paths"
    using assms s by (auto simp add: merge_parquets_def Let_def merge_loop_eq split: if_splits)
  have r: "rows_written rep
             = sum_list (map num_rows (List.map_filter (merged_shard env sch) ?paths))"
    using assms s by (auto simp add: merge_parquets_def Let_def merge_loop_eq split: if_splits)
  have p: "parquet rep = None \<longleftrightarrow>
         \<not> writer_open_ok env \<or> (tmp_exists env \<and> \<not> replace_ok env)"
    using assms s by (auto simp add: merge_parquets_def Let_def merge_loop_eq split: if_splits)
  show ?thesis using s i r p by (auto simp add: merged_shard_closed)
qed

lemma example_schema:
  "collect_unified_schema (schema_arrow example_env)
     [''data/run1/s1.parquet'', ''data/run2/s2.parquet'', ''data/run2/bad.parquet'']
   = Inr shard_schema"
  by (simp add: collect_unified_schema_def example_env_def List.map_filter_simps
        score_to_float64_def shard_schema_def unify_schemas_def merge_type_def)

lemma example_aligned:
  "aligned example_env shard_schema ''data/run1/s1.parquet'' = Some (shard_table PNone)"
  "aligned example_env shard_schema ''data/run2/s2.parquet'' = Some (shard_table (PStr ''v''))"
  "aligned example_env shard_schema ''data/run2/bad.parquet'' = None"
  by (simp_all add: aligned_def example_env_def align_table_to_schema_def shard_schema_def
        shard_table_def plain_arrow_def)



lemma example_merge_no_writer:
  "merge_parquets (example_env\<lparr>writer_open_ok := False\<rparr>) example_merge_args =
     Inr (\<lparr> parquet = None, pkl = None, report_output_dir = ''out'', rows_written = 2,
            inputs = [''data/run1/s1.parquet'', ''data/run2/s2.parquet'',
                      ''data/run2/bad.parquet''] \<rparr>,
          None)"
proof -
  let ?env = "example_env\<lparr>writer_open_ok := False\<rparr>"
  have d: "discover_parquet_files (fsys ?env) (input_parent_dirs example_merge_args)
             (name_contains example_merge_args) (one_level_deep example_merge_args)
           = discover_parquet_files example_fs [''data''] [] True"
    by (simp add: example_env_def example_merge_args_def)
  have al: "aligned ?env = aligned example_env"
    by (rule ext, rule ext) (simp add: aligned_def split: option.split)
  have m: "merged_shard ?env shard_schema = aligned example_env shard_schema"
    using merged_shard_closed [of ?env shard_schema] al by simp
  have n: "num_rows (shard_table x) = 1" for x by (simp add: shard_table_def)
  have e: "fsys ?env = example_fs" "\<not> writer_open_ok ?env"
    "schema_arrow ?env = schema_arrow example_env"
    by (simp_all add: example_env_def)
  have l: "shard_schema \<noteq> []" by (simp add: shard_schema_def)
  show ?thesis
    unfolding merge_parquets_def d example_discover
    by (simp add: Let_def example_schema merge_loop_eq m example_aligned n e l
          List.map_filter_simps del: merge_env.simps)
       (simp add: example_merge_args_def example_fs_def)
qed

theorem C10_rows_written_independent_witness:
  "merge_parquets (example_env\<lparr>writer_open_ok := False\<rparr>) example_merge_args =
     Inr (\<lparr> parquet = None, pkl = None, report_output_dir = ''out'', rows_written = 2,
            inputs = [''data/run1/s1.parquet'', ''data/run2/s2.parquet'',
                      ''data/run2/bad.parquet''] \<rparr>,
          None)
   \<and> read_table (example_env\<lparr>writer_open_ok := False\<rparr>) ''data/run2/bad.parquet'' = None
   \<and> \<not> writer_open_ok (example_env\<lparr>writer_open_ok := False\<rparr>)"
proof -
  note a = example_merge_no_writer
  have b: "read_table (example_env\<lparr>writer_open_ok := False\<rparr>) ''data/run2/bad.parquet'' = None"
    by (simp add: example_env_def)
  have c: "\<not> writer_open_ok (example_env\<lparr>writer_open_ok := False\<rparr>)"
    by simp
  from C10_rows_written_independent [OF a] a b c show ?thesis by blast
qed

lemma failing_merge:
  "merge_parquets failing_env example_merge_args =
     Inr (\<lparr> parquet = None, pkl = None, report_output_dir = ''out'', rows_written = 1,
            inputs = [''data/run1/s1.parquet'', ''data/run2/s2.parquet'',
                      ''data/run2/bad.parquet''] \<rparr>,
          None)"
proof -
  have d: "discover_parquet_files (fsys failing_env) (input_parent_dirs example_merge_args)
             (name_contains example_merge_args) (one_level_deep example_merge_args)
           = discover_parquet_files example_fs [''data''] [] True"
    by (simp add: failing_env_def example_env_def example_merge_args_def)
  have al: "aligned failing_env = aligned example_env"
    by (rule ext, rule ext) (simp add: aligned_def failing_env_def split: option.split)
  have m: "merged_shard failing_env shard_schema ''data/run1/s1.parquet'' = Some (shard_table PNone)"
    "merged_shard failing_env shard_schema ''data/run2/s2.parquet'' = None"
    "merged_shard failing_env shard_schema ''data/run2/bad.parquet'' = None"
    by (simp_all add: merged_shard_def al example_aligned)
       (simp_all add: failing_env_def example_env_def)
  have n: "num_rows (shard_table x) = 1" for x by (simp add: shard_table_def)
  have e: "fsys failing_env = example_fs" "writer_open_ok failing_env" "tmp_exists failing_env"
    "\<not> replace_ok failing_env" "schema_arrow failing_env = schema_arrow example_env"
    by (simp_all add: failing_env_def example_env_def)
  have l: "shard_schema \<noteq> []" by (simp add: shard_schema_def)
  show ?thesis
    unfolding merge_parquets_def d example_discover
    by (simp add: Let_def example_schema merge_loop_eq m n e l List.map_filter_simps)
       (simp add: example_merge_args_def example_fs_def)
qed

text \<open>
  C10, as stated, at a run in which the writer opens, \<open>write_table\<close> fails for
  the second shard and the rename fails: two shards read and align, with two rows
  in all, and \<open>rows_written\<close> is 1.
\<close>

theorem C10_write_failure_not_counted:
  "merge_parquets failing_env example_merge_args =
     Inr (\<lparr> parquet = None, pkl = None, report_output_dir = ''out'', rows_written = 1,
            inputs = [''data/run1/s1.parquet'', ''data/run2/s2.parquet'',
                      ''data/run2/bad.parquet''] \<rparr>,
          None)
   \<and> \<not> replace_ok failing_env
   \<and> List.map_filter (aligned failing_env shard_schema)
        [''data/run1/s1.parquet'', ''data/run2/s2.parquet'', ''data/run2/bad.parquet'']
       = [shard_table PNone, shard_table (PStr ''v'')]
   \<and> sum_list (map num_rows (List.map_filter (aligned failing_env shard_schema)
        [''data/run1/s1.parquet'', ''data/run2/s2.parquet'', ''data/run2/bad.parquet''])) = 2"
proof -
  have al: "aligned failing_env = aligned example_env"
    by (rule ext, rule ext) (simp add: aligned_def failing_env_def split: option.split)
  have n: "num_rows (shard_table x) = 1" for x by (simp add: shard_table_def)
  have r: "\<not> replace_ok failing_env" by (simp add: failing_env_def)
  show ?thesis
    using r by (simp add: failing_merge al example_aligned List.map_filter_simps n)
qed

















lemma na_last_less: "na_last (Some d) < na_last None"
  by simp

lemma na_last_mono: "d1 < d2 \<Longrightarrow> na_last (Some d1) < na_last (Some d2)"
  by simp






end
